theory Spec2Isabelle
  imports Main
begin

section \<open>Regular expressions (Python's \<open>re\<close> module)\<close>

text \<open>
  The two patterns of the script are written as abstract syntax and run by a backtracking
  matcher. The matcher returns every way the expression can match from a state, in the
  order in which Python's backtracking engine tries them; the head of the list is the
  match the engine reports.
\<close>

datatype atom =
    Lit char         \<comment> \<open>a literal character\<close>
  | Space            \<comment> \<open>\<^verbatim>\<open>\s\<close>\<close>
  | Digit            \<comment> \<open>\<^verbatim>\<open>\d\<close>\<close>
  | Dot              \<comment> \<open>\<^verbatim>\<open>.\<close>\<close>
  | NotChar char     \<comment> \<open>\<^verbatim>\<open>[^c]\<close>\<close>

datatype regex =
    Atom atom
  | Eps
  | Bol                \<comment> \<open>\<^verbatim>\<open>^\<close> without \<^verbatim>\<open>re.MULTILINE\<close>\<close>
  | Seq regex regex
  | Opt regex          \<comment> \<open>\<^verbatim>\<open>r?\<close>, greedy\<close>
  | Star regex         \<comment> \<open>\<^verbatim>\<open>r*\<close>, greedy\<close>
  | LazyStar regex     \<comment> \<open>\<^verbatim>\<open>r*?\<close>\<close>
  | Plus regex         \<comment> \<open>\<^verbatim>\<open>r+\<close>, greedy\<close>
  | Group nat regex    \<comment> \<open>capturing group number \<open>n\<close>\<close>

record flags =
  ignorecase :: bool
  dotall :: bool

definition ascii_lower :: "char \<Rightarrow> char" where
  "ascii_lower c =
     (case map_of (zip ''ABCDEFGHIJKLMNOPQRSTUVWXYZ'' ''abcdefghijklmnopqrstuvwxyz'') c of
        None \<Rightarrow> c
      | Some l \<Rightarrow> l)"

text \<open>The characters below 256 for which Python's \<open>str.isspace\<close> holds.\<close>

definition is_space :: "char \<Rightarrow> bool" where
  "is_space c \<longleftrightarrow>
     c \<in> set [CHR 0x09, CHR 0x0A, CHR 0x0B, CHR 0x0C, CHR 0x0D,
               CHR 0x1C, CHR 0x1D, CHR 0x1E, CHR 0x1F, CHR 0x20, CHR 0x85, CHR 0xA0]"

text \<open>The decimal digits below 256.\<close>

definition is_digit :: "char \<Rightarrow> bool" where
  "is_digit c \<longleftrightarrow> c \<in> set ''0123456789''"

text \<open>
  Under \<^verbatim>\<open>re.IGNORECASE\<close> a literal matches a character with the same lower-case form.
  The literals of the script's patterns are ASCII, and among the characters below 256 only
  the ASCII letter of the other case folds to an ASCII letter.
\<close>

fun atom_ok :: "flags \<Rightarrow> atom \<Rightarrow> char \<Rightarrow> bool" where
  "atom_ok f (Lit c) x = (if ignorecase f then ascii_lower x = ascii_lower c else x = c)"
| "atom_ok f Space x = is_space x"
| "atom_ok f Digit x = is_digit x"
| "atom_ok f Dot x = (dotall f \<or> x \<noteq> CHR 0x0A)"
| "atom_ok f (NotChar c) x =
     (if ignorecase f then ascii_lower x \<noteq> ascii_lower c else x \<noteq> c)"

text \<open>
  A matcher state: the position in the subject, the text from there on, and the spans of
  the groups closed so far (the most recent first).
\<close>

datatype mstate = MState (pos: nat) (rest: string) (groups: "(nat \<times> nat \<times> nat) list")

text \<open>
  Repetition. The counter is the length of the remaining text, which bounds the number of
  iterations that consume a character; an iteration that consumes nothing is not
  repeated. Every repeated expression of the script's patterns consumes a character.
\<close>

fun star_greedy :: "(mstate \<Rightarrow> mstate list) \<Rightarrow> nat \<Rightarrow> mstate \<Rightarrow> mstate list" where
  "star_greedy m 0 st = [st]"
| "star_greedy m (Suc n) st =
     concat (map (\<lambda>st'. if length (rest st') < length (rest st)
                          then star_greedy m n st' else [])
                 (m st)) @ [st]"

fun star_lazy :: "(mstate \<Rightarrow> mstate list) \<Rightarrow> nat \<Rightarrow> mstate \<Rightarrow> mstate list" where
  "star_lazy m 0 st = [st]"
| "star_lazy m (Suc n) st =
     st # concat (map (\<lambda>st'. if length (rest st') < length (rest st)
                               then star_lazy m n st' else [])
                      (m st))"

fun rm :: "regex \<Rightarrow> flags \<Rightarrow> mstate \<Rightarrow> mstate list" where
  "rm (Atom a) f st =
     (case rest st of
        [] \<Rightarrow> []
      | c # cs \<Rightarrow> if atom_ok f a c then [MState (Suc (pos st)) cs (groups st)] else [])"
| "rm Eps f st = [st]"
| "rm Bol f st = (if pos st = 0 then [st] else [])"
| "rm (Seq r1 r2) f st = concat (map (rm r2 f) (rm r1 f st))"
| "rm (Opt r) f st = rm r f st @ [st]"
| "rm (Star r) f st = star_greedy (rm r f) (length (rest st)) st"
| "rm (LazyStar r) f st = star_lazy (rm r f) (length (rest st)) st"
| "rm (Plus r) f st =
     concat (map (\<lambda>st'. star_greedy (rm r f) (length (rest st')) st') (rm r f st))"
| "rm (Group n r) f st =
     map (\<lambda>st'. MState (pos st') (rest st') ((n, pos st, pos st') # groups st')) (rm r f st)"

definition seq :: "regex list \<Rightarrow> regex" where
  "seq rs = foldr Seq rs Eps"

definition str :: "string \<Rightarrow> regex" where
  "str s = seq (map (\<lambda>c. Atom (Lit c)) s)"

text \<open>
  One attempt at position \<open>i\<close>. When the previous match of a substitution was empty, an
  empty match at the same position is refused and the engine backtracks to the next way.
\<close>

definition match_at :: "regex \<Rightarrow> flags \<Rightarrow> string \<Rightarrow> nat \<Rightarrow> bool \<Rightarrow> mstate option" where
  "match_at r f s i must_advance =
     List.find (\<lambda>st. must_advance \<longrightarrow> pos st \<noteq> i) (rm r f (MState i (drop i s) []))"

text \<open>The scan of \<^verbatim>\<open>re.search\<close>: the leftmost position with a match, up to the end.\<close>

function re_search_from ::
  "regex \<Rightarrow> flags \<Rightarrow> string \<Rightarrow> nat \<Rightarrow> bool \<Rightarrow> (nat \<times> mstate) option" where
  "re_search_from r f s i must_advance =
     (if length s < i then None
      else case match_at r f s i must_advance of
             Some st \<Rightarrow> Some (i, st)
           | None \<Rightarrow> re_search_from r f s (Suc i) False)"
  by pat_completeness auto
termination
  by (relation "measure (\<lambda>(r, f, s, i, a). Suc (length s) - i)") auto

definition re_search :: "regex \<Rightarrow> flags \<Rightarrow> string \<Rightarrow> (nat \<times> mstate) option" where
  "re_search r f s = re_search_from r f s 0 False"

text \<open>The text of group \<open>n\<close> of a match (\<^verbatim>\<open>m.group(n)\<close>), if the group took part.\<close>

definition group :: "string \<Rightarrow> mstate \<Rightarrow> nat \<Rightarrow> string option" where
  "group s st n =
     (case map_of (groups st) n of
        None \<Rightarrow> None
      | Some (b, e) \<Rightarrow> Some (take (e - b) (drop b s)))"

text \<open>A replacement template: literal text and group references such as \<^verbatim>\<open>\1\<close>.\<close>

datatype tpart = TLit string | TGroup nat

fun expand :: "tpart list \<Rightarrow> string \<Rightarrow> mstate \<Rightarrow> string" where
  "expand [] s st = []"
| "expand (TLit l # ps) s st = l @ expand ps s st"
| "expand (TGroup n # ps) s st =
     (case group s st n of None \<Rightarrow> [] | Some g \<Rightarrow> g) @ expand ps s st"

text \<open>
  \<^verbatim>\<open>re.sub\<close>: every non-overlapping match, from left to right, is replaced by the expanded
  template; the text between the matches and after the last one is copied.
\<close>

function sub_loop ::
  "regex \<Rightarrow> flags \<Rightarrow> tpart list \<Rightarrow> string \<Rightarrow> nat \<Rightarrow> bool \<Rightarrow> string" where
  "sub_loop r f tpl s i must_advance =
     (case re_search_from r f s i must_advance of
        None \<Rightarrow> drop i s
      | Some (b, st) \<Rightarrow>
          take (b - i) (drop i s) @ expand tpl s st
            @ sub_loop r f tpl s (pos st) (pos st = b))"
  by pat_completeness auto

definition re_sub :: "regex \<Rightarrow> flags \<Rightarrow> tpart list \<Rightarrow> string \<Rightarrow> string" where
  "re_sub r f tpl s = sub_loop r f tpl s 0 False"

section \<open>Texts\<close>

text \<open>
  A Python \<open>str\<close> is modelled as a HOL \<open>string\<close>: one \<open>char\<close> stands for one code
  point, so \<open>length\<close> counts what Python's \<open>len\<close> and slicing count. The model covers
  texts whose code points lie below 256.
\<close>

subsection \<open>Abstract clean-up (InPort\_Update.py, lines 118--120)\<close>

definition dquote :: char where
  "dquote = CHR 0x22"

text \<open>
  \<^verbatim>\<open>(^\s*(?:<p>)?\s*)(?:<a\s+href="[^"]*">.*?</a>\s*(?:<br\s*/?>)?\s*)+\<close>
\<close>

definition match_pattern :: regex where
  "match_pattern =
     Seq (Group 1 (seq [Bol, Star (Atom Space), Opt (str ''<p>''), Star (Atom Space)]))
         (Plus (seq [str ''<a'', Plus (Atom Space), str ''href='', Atom (Lit dquote),
                     Star (Atom (NotChar dquote)), Atom (Lit dquote), str ''>'',
                     LazyStar (Atom Dot), str ''</a>'', Star (Atom Space),
                     Opt (seq [str ''<br'', Star (Atom Space), Opt (str ''/''), str ''>'']),
                     Star (Atom Space)]))"

text \<open>
  \<^verbatim>\<open>re.sub(match_pattern, r'\1', text, flags=re.IGNORECASE | re.DOTALL)\<close>
\<close>

definition stripLeadingLinks :: "string \<Rightarrow> string" where
  "stripLeadingLinks t =
     re_sub match_pattern \<lparr>ignorecase = True, dotall = True\<rparr> [TGroup 1] t"

text \<open>
  \<^verbatim>\<open>if abstract_node.text: abstract_node.text = re.sub(...)\<close> (lines 115--120): the
  assignment is guarded by the truthiness of the text, which is false for \<open>None\<close> and for
  the empty string.
\<close>

fun edit_abstract_text :: "string option \<Rightarrow> string option" where
  "edit_abstract_text None = None"
| "edit_abstract_text (Some t) = (if t = [] then Some t else Some (stripLeadingLinks t))"

subsection \<open>Use-limit truncation (InPort\_Update.py, lines 126--127)\<close>

text \<open>
  \<^verbatim>\<open>limit_node.text[:267] + '.'\<close>: a Python slice never raises; it stops at the end of
  the text, as \<open>take\<close> does.
\<close>

definition truncateUseLimit :: "string \<Rightarrow> string" where
  "truncateUseLimit t = take 267 t @ ''.''"

text \<open>\<^verbatim>\<open>if limit_node.text: limit_node.text = ...\<close>, guarded in the same way.\<close>

fun edit_use_limit_text :: "string option \<Rightarrow> string option" where
  "edit_use_limit_text None = None"
| "edit_use_limit_text (Some t) = (if t = [] then Some t else Some (truncateUseLimit t))"

subsection \<open>Exceptions\<close>

text \<open>
  An exception: a \<open>requests.exceptions.RequestException\<close> (with its message), the
  \<open>HTTPError\<close> that \<open>raise_for_status\<close> raises for a status (one of the former class),
  the \<open>ValueError\<close> of a refused integer conversion, or any other exception. A \<open>print\<close>
  that formats an exception is recorded with the exception.
\<close>

datatype exn = RequestException string | HTTPError int | ValueError | OtherException string


subsection \<open>Catalog id (InPort\_Update.py, lines 184--190)\<close>

text \<open>\<^verbatim>\<open>/item/(\d+)\<close>\<close>

definition id_pattern :: regex where
  "id_pattern = Seq (str ''/item/'') (Group 1 (Plus (Atom Digit)))"

text \<open>The number that a text of decimal digits denotes; Python integers are unbounded.\<close>

definition digit_value :: "char \<Rightarrow> int" where
  "digit_value c = of_char c - 48"

definition digits_value :: "string \<Rightarrow> int" where
  "digits_value ds = foldl (\<lambda>n c. 10 * n + digit_value c) 0 ds"

text \<open>
  Python's \<open>int\<close> on a text of decimal digits, the only texts that group 1 of the pattern
  gives. The conversion of a text of more than 4300 digits is refused with a
  \<open>ValueError\<close>: 4300 is the default of \<^verbatim>\<open>sys.int_max_str_digits\<close>, which the script does
  not change, and leading zeros count. The empty text is refused too.
\<close>

definition int_max_str_digits :: nat where
  "int_max_str_digits = 4300"

definition py_int :: "string \<Rightarrow> exn + int" where
  "py_int ds =
     (if ds = [] \<or> int_max_str_digits < length ds then Inl ValueError
      else Inr (digits_value ds))"

text \<open>
  \<^verbatim>\<open>id_match = re.search(r'/item/(\d+)', link)\<close>, then \<^verbatim>\<open>int(id_match.group(1))\<close> when
  there is a match: the result is the absence of a match, the integer, or the exception
  that \<open>int\<close> raises. Group 1 takes part in every match of this pattern; \<open>int\<close> of a
  missing group would raise a \<open>TypeError\<close>.
\<close>

definition extractCatalogId :: "string \<Rightarrow> exn + int option" where
  "extractCatalogId link =
     (case re_search id_pattern \<lparr>ignorecase = False, dotall = False\<rparr> link of
        None \<Rightarrow> Inr None
      | Some (b, st) \<Rightarrow>
          (case group link st 1 of
             None \<Rightarrow> Inl (OtherException ''TypeError'')
           | Some ds \<Rightarrow>
               (case py_int ds of
                  Inl e \<Rightarrow> Inl e
                | Inr item_id \<Rightarrow> Inr (Some item_id))))"

section \<open>XML documents (\<open>xml.etree.ElementTree\<close>)\<close>

text \<open>
  An element has a tag, attributes, a text, a tail and children. The parser of the
  script keeps neither comments nor processing instructions, so every node is an
  element.
\<close>

datatype elem =
  Elem (tag: string) (attrib: "(string \<times> string) list") (text_of: "string option")
       (tail: "string option") (children: "elem list")

text \<open>\<^verbatim>\<open>Element.iter()\<close>: the element itself, then its descendants, in document order.\<close>

fun iter :: "elem \<Rightarrow> elem list" where
  "iter (Elem t a x y cs) = Elem t a x y cs # concat (map iter cs)"

definition endswith :: "string \<Rightarrow> string \<Rightarrow> bool" where
  "endswith s suf \<longleftrightarrow> length suf \<le> length s \<and> drop (length s - length suf) s = suf"

text \<open>
  A node of a document is referred to by its path from the root: the indices of the
  children to follow. Paths stand for the object references that \<open>findall\<close> returns.
\<close>

type_synonym path = "nat list"

text \<open>
  The path expression \<^verbatim>\<open>t1/t2/.../tn\<close> from an element: the children tagged \<open>t1\<close>, their
  children tagged \<open>t2\<close>, and so on.
\<close>

fun child_chain :: "string list \<Rightarrow> elem \<Rightarrow> path list" where
  "child_chain [] e = [[]]"
| "child_chain (t # ts) e =
     concat (map (\<lambda>i. if tag (children e ! i) = t
                       then map ((#) i) (child_chain ts (children e ! i)) else [])
                 [0..<length (children e)])"

text \<open>
  \<^verbatim>\<open>root.findall(".//d/t1/.../tn")\<close>: for each proper descendant tagged \<open>d\<close>, in document
  order, the nodes that \<^verbatim>\<open>t1/.../tn\<close> selects from it.
\<close>

function desc_chain :: "string \<Rightarrow> string list \<Rightarrow> elem \<Rightarrow> path list" where
  "desc_chain d ts (Elem t a x y cs) =
     concat (map (\<lambda>i. map ((#) i)
                        ((if tag (cs ! i) = d then child_chain ts (cs ! i) else [])
                          @ desc_chain d ts (cs ! i)))
                 [0..<length cs])"
  by pat_completeness auto
termination
proof (relation "measure (\<lambda>(d, ts, e). size e)", goal_cases)
  case 1
  show ?case by simp
next
  case (2 d ts t a x y cs i)
  then have "cs ! i \<in> set cs" by simp
  then have "size (cs ! i) \<le> size_list size cs" by (rule size_list_estimation') simp
  then show ?case by simp
qed

text \<open>The assignment \<^verbatim>\<open>node.text = g(node.text)\<close> through the reference \<open>p\<close>.\<close>

fun upd_text :: "(string option \<Rightarrow> string option) \<Rightarrow> path \<Rightarrow> elem \<Rightarrow> elem" where
  "upd_text g [] (Elem t a x y cs) = Elem t a (g x) y cs"
| "upd_text g (i # p) (Elem t a x y cs) = Elem t a x y (cs[i := upd_text g p (cs ! i)])"

text \<open>The node that a path refers to.\<close>

fun node_at :: "elem \<Rightarrow> path \<Rightarrow> elem option" where
  "node_at e [] = Some e"
| "node_at e (i # p) =
     (if i < length (children e) then node_at (children e ! i) p else None)"

section \<open>The script\<close>

subsection \<open>What the script prints and requests\<close>

text \<open>The body of the publish request (lines 193--198).\<close>

record payload =
  sessionId :: "string option"
  catId :: int
  transformId :: int
  xml :: string

text \<open>
  The observable steps of a run, in order: one constructor for each \<open>print\<close> of the
  script, carrying the values it interpolates, and one for each HTTP request.
\<close>

datatype event =
    PObtainingSession                      \<comment> \<open>line 61\<close>
  | SessionPost string                     \<comment> \<open>line 63, \<open>requests.post\<close> to the session URL\<close>
  | PSessionObtained                       \<comment> \<open>line 68\<close>
  | PSessionUrlUndefined                   \<comment> \<open>line 70\<close>
  | PRequestError exn                      \<comment> \<open>line 72\<close>
  | PUnexpectedError exn                   \<comment> \<open>line 74\<close>
  | PLooping                               \<comment> \<open>line 90\<close>
  | PStarting string                       \<comment> \<open>line 99, survey name\<close>
  | Get string                             \<comment> \<open>line 103, \<open>requests.get\<close>\<close>
  | PFetchFailed string string int         \<comment> \<open>line 106, survey name, file id, status\<close>
  | PEditedAbstract string                 \<comment> \<open>line 121\<close>
  | PEditedUseTerms string                 \<comment> \<open>line 128\<close>
  | PRemovedThumbnail string               \<comment> \<open>line 138\<close>
  | PDistInfo string                       \<comment> \<open>line 176\<close>
  | PUpdatingItem int                      \<comment> \<open>line 187\<close>
  | PSkippingNoId string string            \<comment> \<open>line 189, file id, link\<close>
  | Post "string option" payload           \<comment> \<open>line 200, \<open>requests.post\<close>\<close>
  | PStatusCode int                        \<comment> \<open>line 201\<close>
  | PErrorsWarnings string                 \<comment> \<open>line 202\<close>
  | PError string exn                      \<comment> \<open>line 205, survey name, exception\<close>
  | PAllUpdated                            \<comment> \<open>line 207\<close>

subsection \<open>Editing the document (lines 111--176)\<close>

text \<open>Lines 114--120: the loop over \<^verbatim>\<open>root.findall(".//dataIdInfo/idAbs")\<close>.\<close>

definition edit_abstracts :: "elem \<Rightarrow> elem" where
  "edit_abstracts root =
     fold (upd_text edit_abstract_text) (desc_chain ''dataIdInfo'' [''idAbs''] root) root"

text \<open>
  Lines 124--127: the loop over
  \<^verbatim>\<open>root.findall(".//dataIdInfo/resConst/Consts/useLimit")\<close>.
\<close>

definition edit_use_limits :: "elem \<Rightarrow> elem" where
  "edit_use_limits root =
     fold (upd_text edit_use_limit_text)
          (desc_chain ''dataIdInfo'' [''resConst'', ''Consts'', ''useLimit''] root) root"

text \<open>
  Lines 135--139: the inner loop over \<^verbatim>\<open>child.iter()\<close> stops at the first node whose tag
  ends with \<^verbatim>\<open>Thumbnail\<close>; it removes the child exactly when there is such a node.
\<close>

definition has_thumbnail :: "elem \<Rightarrow> bool" where
  "has_thumbnail child \<longleftrightarrow> list_ex (\<lambda>grandchild. endswith (tag grandchild) ''Thumbnail'') (iter child)"

text \<open>\<^verbatim>\<open>root.remove(child)\<close>: the first occurrence of the child leaves the list of children.\<close>

fun remove :: "elem \<Rightarrow> elem \<Rightarrow> elem" where
  "remove (Elem t a x y cs) child = Elem t a x y (remove1 child cs)"

text \<open>
  Lines 133--139: the outer loop runs over \<^verbatim>\<open>list(root)\<close>, a copy of the list of children
  taken before the first removal. The state is the document and what has been printed.
\<close>

definition thumbnail_step :: "string \<Rightarrow> elem \<Rightarrow> elem \<times> event list \<Rightarrow> elem \<times> event list" where
  "thumbnail_step survey_name child st =
     (if endswith (tag child) ''Binary'' \<and> has_thumbnail child
      then (remove (fst st) child, snd st @ [PRemovedThumbnail survey_name])
      else st)"

definition remove_thumbnails :: "string \<Rightarrow> elem \<Rightarrow> elem \<times> event list" where
  "remove_thumbnails survey_name root =
     fold (thumbnail_step survey_name) (children root) (root, [])"

definition removeThumbnailBlock :: "elem \<Rightarrow> elem" where
  "removeThumbnailBlock root = fst (remove_thumbnails [] root)"

text \<open>\<^verbatim>\<open>Element.find(t)\<close>: the first child tagged \<open>t\<close>, here as its index.\<close>

fun first_index :: "('a \<Rightarrow> bool) \<Rightarrow> 'a list \<Rightarrow> nat option" where
  "first_index P [] = None"
| "first_index P (x # xs) = (if P x then Some 0 else map_option Suc (first_index P xs))"

definition find_child :: "string \<Rightarrow> elem \<Rightarrow> nat option" where
  "find_child t e = first_index (\<lambda>c. tag c = t) (children e)"

text \<open>\<^verbatim>\<open>ET.SubElement(parent, t)\<close> appends a new element without attributes, text or children.\<close>

definition new_element :: "string \<Rightarrow> elem" where
  "new_element t = Elem t [] None None []"

fun set_children :: "elem \<Rightarrow> elem list \<Rightarrow> elem" where
  "set_children (Elem t a x y cs) cs' = Elem t a x y cs'"

fun set_text :: "string option \<Rightarrow> elem \<Rightarrow> elem" where
  "set_text v (Elem t a x y cs) = Elem t a v y cs"

text \<open>
  \<^verbatim>\<open>c = parent.find(t); if c is None: c = ET.SubElement(parent, t)\<close>, followed by the
  statements \<open>k\<close> that the script runs on \<open>c\<close>: \<open>c\<close> is the first child tagged \<open>t\<close> if
  there is one, else a new last child.
\<close>

definition get_or_create :: "string \<Rightarrow> (elem \<Rightarrow> elem) \<Rightarrow> elem \<Rightarrow> elem" where
  "get_or_create t k parent =
     (case find_child t parent of
        Some i \<Rightarrow> set_children parent ((children parent)[i := k (children parent ! i)])
      | None \<Rightarrow> set_children parent (children parent @ [k (new_element t)]))"

text \<open>
  Lines 143--174. Under the distribution-info element the script first walks
  \<^verbatim>\<open>distTranOps/onLineSrc/linkage\<close> and writes the linkage text, then walks
  \<^verbatim>\<open>distFormat/formatName\<close> and writes the format name.
\<close>

definition upsertDistributionInfo :: "string \<Rightarrow> string \<Rightarrow> elem \<Rightarrow> elem" where
  "upsertDistributionInfo rest_url format_name root =
     get_or_create ''distInfo''
       (\<lambda>dist_info.
          get_or_create ''distFormat''
            (get_or_create ''formatName'' (set_text (Some format_name)))
            (get_or_create ''distTranOps''
               (get_or_create ''onLineSrc''
                  (get_or_create ''linkage'' (set_text (Some rest_url))))
               dist_info))
       root"

text \<open>Lines 111--176 as a whole: the edited document and what was printed.\<close>

definition edit_xml :: "string \<Rightarrow> string \<Rightarrow> elem \<Rightarrow> elem \<times> event list" where
  "edit_xml survey_name rest_url root =
     (let root1 = edit_abstracts root;
          root2 = edit_use_limits root1;
          (root3, removed) = remove_thumbnails survey_name root2;
          root4 = upsertDistributionInfo rest_url ''ESRI REST Service'' root3
      in (root4, [PEditedAbstract survey_name, PEditedUseTerms survey_name] @ removed
                   @ [PDistInfo survey_name]))"

subsection \<open>The session id (lines 49--74)\<close>






subsection \<open>One record (lines 93--205)\<close>

record source_record =
  file_id :: string
  rest_url :: string
  survey_name :: string
  link :: string

text \<open>
  The outside world as one record meets it: the answer to the metadata request (an
  exception, or a status code and a body), the XML parser and serializer, and the
  answer to the publish request (an exception, or a status code and a text).
\<close>

record world =
  http_get :: "string \<Rightarrow> exn + int \<times> string"
  fromstring :: "string \<Rightarrow> exn + elem"
  tostring :: "elem \<Rightarrow> string"
  http_post :: "string option \<Rightarrow> payload \<Rightarrow> exn + int \<times> string"

definition source_url :: "string \<Rightarrow> string" where
  "source_url fid =
     ''https://www.arcgis.com/sharing/rest/content/items/'' @ fid
       @ ''/info/metadata/metadata.xml''"

text \<open>
  How the body of the loop ends for a record: at its last line (\<open>Success\<close>), at the
  \<^verbatim>\<open>continue\<close> of line 107 (\<open>SkippedFetch\<close>) or of line 190 (\<open>SkippedNoId\<close>), or in the
  handler of line 204, with the exception and the call that raised it: the metadata
  request, the parser, the conversion of the id, or the publish request.
\<close>

datatype outcome =
    Success
  | SkippedFetch
  | SkippedNoId
  | FetchError exn
  | TransformError exn
  | IdError exn
  | PublishError exn

definition run_record ::
  "world \<Rightarrow> string option \<Rightarrow> string option \<Rightarrow> source_record \<Rightarrow> outcome \<times> event list" where
  "run_record w inport_xml_url session_id row =
     (let started = [PStarting (survey_name row), Get (source_url (file_id row))] in
      case http_get w (source_url (file_id row)) of
        Inl e \<Rightarrow> (FetchError e, started @ [PError (survey_name row) e])
      | Inr (status_code, content) \<Rightarrow>
          if status_code \<noteq> 200
          then (SkippedFetch,
                started @ [PFetchFailed (survey_name row) (file_id row) status_code])
          else
            (case fromstring w content of
               Inl e \<Rightarrow> (TransformError e, started @ [PError (survey_name row) e])
             | Inr root \<Rightarrow>
                 (let (root', edited) = edit_xml (survey_name row) (rest_url row) root;
                      modified_xml = tostring w root'
                  in case extractCatalogId (link row) of
                       Inl e \<Rightarrow>
                         (IdError e, started @ edited @ [PError (survey_name row) e])
                     | Inr None \<Rightarrow>
                         (SkippedNoId,
                          started @ edited @ [PSkippingNoId (file_id row) (link row)])
                     | Inr (Some item_id) \<Rightarrow>
                         (let inport_update =
                                \<lparr>sessionId = session_id, catId = item_id,
                                 transformId = 1005, xml = modified_xml\<rparr>;
                              sent = started @ edited
                                       @ [PUpdatingItem item_id, Post inport_xml_url inport_update]
                          in case http_post w inport_xml_url inport_update of
                               Inl e \<Rightarrow> (PublishError e, sent @ [PError (survey_name row) e])
                             | Inr (code, body) \<Rightarrow>
                                 (Success, sent @ [PStatusCode code, PErrorsWarnings body])))))"

subsection \<open>The batch (lines 82--207)\<close>


text \<open>What has been printed and requested so far, and how each record processed so far ended.\<close>

record run_state =
  trace :: "event list"
  outcomes :: "outcome list"

text \<open>
  The loop of line 92. The outside world may change between records: \<open>worlds k\<close> is the
  world that the record at position \<open>k\<close> meets.
\<close>

fun run_batch ::
  "(nat \<Rightarrow> world) \<Rightarrow> string option \<Rightarrow> string option \<Rightarrow> nat \<Rightarrow> source_record list
     \<Rightarrow> run_state \<Rightarrow> run_state" where
  "run_batch worlds inport_xml_url session_id k [] st = st"
| "run_batch worlds inport_xml_url session_id k (row # rows) st =
     (let (ending, events) = run_record (worlds k) inport_xml_url session_id row
      in run_batch worlds inport_xml_url session_id (Suc k) rows
           (st\<lparr>trace := trace st @ events, outcomes := outcomes st @ [ending]\<rparr>))"

record environment =
  inport_username :: "string option"
  inport_password :: "string option"
  inport_session_url :: "string option"
  inport_xml_url :: "string option"


section \<open>Vocabulary of the properties\<close>

subsection \<open>Matcher states\<close>

text \<open>A state reached from another one: some characters further on in the same text.\<close>

definition reaches :: "mstate \<Rightarrow> mstate \<Rightarrow> bool" where
  "reaches st st' \<longleftrightarrow>
     (\<exists>k\<le>length (rest st). pos st' = pos st + k \<and> rest st' = drop k (rest st))"

text \<open>The state \<open>k\<close> characters further on.\<close>

definition adv :: "mstate \<Rightarrow> nat \<Rightarrow> mstate" where
  "adv st k = MState (pos st + k) (drop k (rest st)) (groups st)"

abbreviation (input) f0 :: flags where
  "f0 \<equiv> \<lparr>ignorecase = False, dotall = False\<rparr>"

subsection \<open>The id marker\<close>


subsection \<open>Reading a document\<close>

text \<open>The texts of the nodes that a list of paths refers to.\<close>

definition texts_at :: "elem \<Rightarrow> path list \<Rightarrow> string option list" where
  "texts_at root ps = map (\<lambda>p. case node_at root p of None \<Rightarrow> None | Some n \<Rightarrow> text_of n) ps"

text \<open>
  The texts of the abstract nodes, of the linkage leaves and of the format-name leaves
  of a document, as \<open>findall\<close> lists them.
\<close>

definition abstract_texts :: "elem \<Rightarrow> string option list" where
  "abstract_texts root = texts_at root (desc_chain ''dataIdInfo'' [''idAbs''] root)"

definition linkage_texts :: "elem \<Rightarrow> string option list" where
  "linkage_texts root =
     texts_at root (child_chain [''distInfo'', ''distTranOps'', ''onLineSrc'', ''linkage''] root)"

definition format_name_texts :: "elem \<Rightarrow> string option list" where
  "format_name_texts root =
     texts_at root (child_chain [''distInfo'', ''distFormat'', ''formatName''] root)"

subsection \<open>An example run\<close>

text \<open>
  The abstract \<^verbatim>\<open><p><a href="h">x</a></p>Real text.\<close>, a document that holds it, the
  document after the edits, a row and an outside world that answers every request with
  status 200.
\<close>

definition example_abstract :: string where
  "example_abstract = ''<p><a href='' @ [dquote] @ ''h'' @ [dquote] @ ''>x</a></p>Real text.''"

definition example_document :: elem where
  "example_document =
     Elem ''metadata'' [] None None
       [Elem ''dataIdInfo'' [] None None [Elem ''idAbs'' [] (Some example_abstract) None []]]"

definition example_result :: elem where
  "example_result =
     Elem ''metadata'' [] None None
       [Elem ''dataIdInfo'' [] None None
          [Elem ''idAbs'' [] (Some ''<p></p>Real text.'') None []],
        Elem ''distInfo'' [] None None
          [Elem ''distTranOps'' [] None None
             [Elem ''onLineSrc'' [] None None
                [Elem ''linkage'' [] (Some ''https://svc/rest'') None []]],
           Elem ''distFormat'' [] None None
             [Elem ''formatName'' [] (Some ''ESRI REST Service'') None []]]]"

definition example_row :: source_record where
  "example_row =
     \<lparr>file_id = ''abc'', rest_url = ''https://svc/rest'', survey_name = ''eDNA Survey'',
      link = ''.../item/99''\<rparr>"

definition example_world :: world where
  "example_world =
     \<lparr>http_get = (\<lambda>url. Inr (200, ''<metadata/>'')),
      fromstring = (\<lambda>content. Inr example_document),
      tostring = (\<lambda>root. ''<metadata/>''),
      http_post = (\<lambda>url body. Inr (200, ''''))\<rparr>"

subsection \<open>Thumbnail containers\<close>

text \<open>The test of lines 134--136 on a child of the root.\<close>

definition thumbnail_container :: "elem \<Rightarrow> bool" where
  "thumbnail_container c \<longleftrightarrow> endswith (tag c) ''Binary'' \<and> has_thumbnail c"

subsection \<open>Runs\<close>



text \<open>How each row of a batch ends, and what its pass through the loop prints and requests.\<close>

definition endings ::
  "(nat \<Rightarrow> world) \<Rightarrow> string option \<Rightarrow> string option \<Rightarrow> nat \<Rightarrow> source_record list
     \<Rightarrow> (outcome \<times> event list) list" where
  "endings worlds u sid k rows =
     map (\<lambda>i. run_record (worlds (k + i)) u sid (rows ! i)) [0..<length rows]"

text \<open>Three worlds; the second answers the metadata request with status 404.\<close>

definition example_worlds :: "nat \<Rightarrow> world" where
  "example_worlds k =
     (if k = 1 then example_world\<lparr>http_get := (\<lambda>url. Inr (404, ''Not Found''))\<rparr>
      else example_world)"


text \<open>
  A world whose publish endpoint answers with status 500, a row whose link has 4301
  digits after the marker, a row whose link has no id, and an environment without a
  session URL.
\<close>

definition server_error_world :: world where
  "server_error_world =
     example_world\<lparr>http_post := (\<lambda>url body. Inr (500, ''Internal Server Error''))\<rparr>"




text \<open>A document with two thumbnail containers among the children of its root.\<close>

definition two_thumbnails :: elem where
  "two_thumbnails =
     Elem ''metadata'' [] None None
       [Elem ''Binary'' [] None None
          [Elem ''Thumbnail'' [] None None [Elem ''Data'' [] (Some ''/9j/4AAQ'') None []]],
        Elem ''dataIdInfo'' [] None None [Elem ''idAbs'' [] (Some ''Text'') None []],
        Elem ''Binary'' [] None None
          [Elem ''Thumbnail'' [] None None [Elem ''Data'' [] (Some ''iVBORw0K'') None []]]]"

subsection \<open>Distribution info\<close>

text \<open>The texts of the nodes that a path of tags selects from an element.\<close>

definition chain_texts :: "string list \<Rightarrow> elem \<Rightarrow> string option list" where
  "chain_texts ts e = texts_at e (child_chain ts e)"

text \<open>
  The path that \<open>find\<close> follows is complete: the first child tagged \<open>t1\<close> has a first
  child tagged \<open>t2\<close>, and so on to the end of the path.
\<close>

fun first_chain :: "string list \<Rightarrow> elem \<Rightarrow> bool" where
  "first_chain [] e = True"
| "first_chain (t # ts) e =
     (case find_child t e of None \<Rightarrow> False | Some i \<Rightarrow> first_chain ts (children e ! i))"

text \<open>
  What the statements run on a child do along a path: the first leaf that the path
  selects holds the value afterwards, a leaf that was there before it keeps its place,
  and every other leaf stays as it was, text and order.
\<close>

definition writes :: "(elem \<Rightarrow> elem) \<Rightarrow> string list \<Rightarrow> string \<Rightarrow> bool" where
  "writes k ts v \<longleftrightarrow>
     (\<forall>c. tag (k c) = tag c) \<and>
     (\<forall>c. chain_texts ts (k c)
            = Some v # (if first_chain ts c then tl (chain_texts ts c) else chain_texts ts c))"

text \<open>\<open>get_or_create\<close> on the list of children.\<close>

fun goc_list :: "string \<Rightarrow> (elem \<Rightarrow> elem) \<Rightarrow> elem list \<Rightarrow> elem list" where
  "goc_list t k [] = [k (new_element t)]"
| "goc_list t k (c # cs) = (if tag c = t then k c # cs else c # goc_list t k cs)"

text \<open>A document whose online source already has two linkage leaves.\<close>

definition two_linkages :: elem where
  "two_linkages =
     Elem ''metadata'' [] None None
       [Elem ''distInfo'' [] None None
          [Elem ''distTranOps'' [] None None
             [Elem ''onLineSrc'' [] None None
                [Elem ''linkage'' [] (Some ''https://old/1'') None [],
                 Elem ''linkage'' [] (Some ''https://old/2'') None []]]]]"

text \<open>The statements that the script runs on the distribution-info element.\<close>

definition dist_info_edits :: "string \<Rightarrow> string \<Rightarrow> elem \<Rightarrow> elem" where
  "dist_info_edits u f dist_info =
     get_or_create ''distFormat'' (get_or_create ''formatName'' (set_text (Some f)))
       (get_or_create ''distTranOps''
          (get_or_create ''onLineSrc'' (get_or_create ''linkage'' (set_text (Some u))))
          dist_info)"

subsection \<open>The frame of the edits\<close>

text \<open>
  The chain of a node is the list of the tags from the node up to the child of the root
  above it, the node's own tag first. A node is a target of the text edits when its chain
  starts with \<^verbatim>\<open>idAbs\<close>, \<^verbatim>\<open>dataIdInfo\<close> or with \<^verbatim>\<open>useLimit\<close>, \<^verbatim>\<open>Consts\<close>, \<^verbatim>\<open>resConst\<close>,
  \<^verbatim>\<open>dataIdInfo\<close>.
\<close>

definition is_target :: "string list \<Rightarrow> bool" where
  "is_target chain \<longleftrightarrow>
     take 2 chain = [''idAbs'', ''dataIdInfo''] \<or>
     take 4 chain = [''useLimit'', ''Consts'', ''resConst'', ''dataIdInfo'']"

text \<open>
  An element below the root with the text of every target erased; \<open>anc\<close> is the chain of
  its parent. Tags, attributes, tails, the other texts and the order of the children
  stay.
\<close>

fun mask_node :: "string list \<Rightarrow> elem \<Rightarrow> elem" where
  "mask_node anc (Elem t a x y cs) =
     Elem t a (if is_target (t # anc) then None else x) y (map (mask_node (t # anc)) cs)"

text \<open>A list without its first element that satisfies \<open>P\<close>.\<close>

fun drop_first :: "('a \<Rightarrow> bool) \<Rightarrow> 'a list \<Rightarrow> 'a list" where
  "drop_first P [] = []"
| "drop_first P (x # xs) = (if P x then xs else x # drop_first P xs)"

text \<open>
  What the edits have to leave alone: the document with the texts of the targets erased,
  the thumbnail containers among the children of the root removed, and the first
  distribution-info child of the root removed.
\<close>

definition frame :: "elem \<Rightarrow> elem" where
  "frame root =
     set_children root
       (drop_first (\<lambda>c. tag c = ''distInfo'')
          (filter (\<lambda>c. \<not> thumbnail_container c) (map (mask_node []) (children root))))"



section \<open>Properties\<close>

subsection \<open>The matcher only moves forward\<close>

lemma reaches_refl: "reaches st st"
  by (auto simp: reaches_def intro: exI [of _ 0])

lemma reaches_trans: "reaches a b \<Longrightarrow> reaches b c \<Longrightarrow> reaches a c"
  unfolding reaches_def
proof (elim exE conjE)
  fix k l
  assume "k \<le> length (rest a)" "pos b = pos a + k" "rest b = drop k (rest a)"
    "l \<le> length (rest b)" "pos c = pos b + l" "rest c = drop l (rest b)"
  then have "k + l \<le> length (rest a) \<and> pos c = pos a + (k + l)
               \<and> rest c = drop (k + l) (rest a)"
    by (auto simp: add.commute)
  then show "\<exists>k\<le>length (rest a). pos c = pos a + k \<and> rest c = drop k (rest a)"
    by blast
qed

lemma star_greedy_reaches:
  assumes "\<And>a b. b \<in> set (m a) \<Longrightarrow> reaches a b"
  shows "st' \<in> set (star_greedy m n st) \<Longrightarrow> reaches st st'"
proof (induction n arbitrary: st)
  case 0
  then show ?case by (simp add: reaches_refl)
next
  case (Suc n)
  then show ?case
    using assms by (fastforce split: if_splits intro: reaches_refl reaches_trans)
qed

lemma star_lazy_reaches:
  assumes "\<And>a b. b \<in> set (m a) \<Longrightarrow> reaches a b"
  shows "st' \<in> set (star_lazy m n st) \<Longrightarrow> reaches st st'"
proof (induction n arbitrary: st)
  case 0
  then show ?case by (simp add: reaches_refl)
next
  case (Suc n)
  then show ?case
    using assms by (fastforce split: if_splits intro: reaches_refl reaches_trans)
qed

lemma rm_reaches: "st' \<in> set (rm r f st) \<Longrightarrow> reaches st st'"
proof (induction r arbitrary: st st')
  case (Atom a)
  then show ?case
    by (cases st) (auto simp: reaches_def split: list.splits if_splits intro!: exI [of _ 1])
next
  case (Seq r1 r2)
  then show ?case by (fastforce intro: reaches_trans)
next
  case (Opt r)
  then show ?case by (auto intro: reaches_refl)
next
  case (Star r)
  then show ?case using star_greedy_reaches [of "rm r f"] by auto
next
  case (LazyStar r)
  then show ?case using star_lazy_reaches [of "rm r f"] by auto
next
  case (Plus r)
  then show ?case using star_greedy_reaches [of "rm r f"] by (fastforce intro: reaches_trans)
next
  case (Group n r)
  then show ?case by (fastforce simp: reaches_def)
qed (auto split: if_splits intro: reaches_refl)

lemma match_at_bounds:
  assumes "match_at r f s i a = Some st" and "i \<le> length s"
  shows "i \<le> pos st \<and> pos st \<le> length s \<and> (a \<longrightarrow> pos st \<noteq> i)"
proof -
  from assms(1) have mem: "st \<in> set (rm r f (MState i (drop i s) []))"
    and adv: "a \<longrightarrow> pos st \<noteq> i"
    unfolding match_at_def by (auto simp: find_Some_iff)
  from rm_reaches [OF mem] assms(2) show ?thesis using adv by (auto simp: reaches_def)
qed

lemma re_search_from_bounds:
  "re_search_from r f s i a = Some (b, st) \<Longrightarrow>
     i \<le> b \<and> b \<le> pos st \<and> pos st \<le> length s \<and> (a \<and> b = i \<longrightarrow> pos st \<noteq> i)"
proof (induction r f s i a rule: re_search_from.induct)
  case (1 r f s i a)
  show ?case
  proof (cases "match_at r f s i a")
    case None
    with 1 show ?thesis by (fastforce split: if_splits)
  next
    case (Some st0)
    with "1.prems" have "length s \<ge> i" "b = i" "st = st0" by (auto split: if_splits)
    with Some match_at_bounds [of r f s i a st0] show ?thesis by auto
  qed
qed

text \<open>
  The substitution loop ends: each round either moves past the previous match or, after
  an empty match, must advance in the next round.
\<close>

termination sub_loop
proof (relation "measure (\<lambda>(r, f, tpl, s, i, a).
                            2 * (Suc (length s) - i) + (if a then 0 else 1))",
       goal_cases)
  case 1
  show ?case by simp
next
  case (2 r f tpl s i a x b st)
  then have "re_search_from r f s i a = Some (b, st)" by simp
  from re_search_from_bounds [OF this] show ?case by auto
qed

subsection \<open>The id pattern\<close>


lemma adv_adv: "adv (adv st j) k = adv st (j + k)"
  by (simp add: adv_def add.commute add.assoc)



















subsection \<open>The example run\<close>

lemma example_edit:
  "edit_xml n ''https://svc/rest'' example_document
     = (example_result, [PEditedAbstract n, PEditedUseTerms n, PDistInfo n])"
  by code_simp

lemma example_id: "extractCatalogId ''.../item/99'' = Inr (Some 99)"
  by code_simp

lemma example_texts:
  "abstract_texts example_result = [Some ''<p></p>Real text.'']"
  "linkage_texts example_result = [Some ''https://svc/rest'']"
  by code_simp+

subsection \<open>The thumbnail loop\<close>

lemma remove1_middle:
  "c \<notin> set pre \<Longrightarrow> remove1 c (pre @ c # xs) = pre @ xs"
  by (induction pre) auto

lemma fold_remove1_filter:
  "\<forall>x\<in>set pre. \<not> P x \<Longrightarrow>
   fold (\<lambda>c acc. if P c then remove1 c acc else acc) xs (pre @ xs)
     = pre @ filter (\<lambda>c. \<not> P c) xs"
proof (induction xs arbitrary: pre)
  case Nil
  then show ?case by simp
next
  case (Cons c xs)
  show ?case
  proof (cases "P c")
    case True
    with Cons.prems have "c \<notin> set pre" by blast
    then have "remove1 c (pre @ c # xs) = pre @ xs" by (rule remove1_middle)
    with True Cons.IH [OF Cons.prems] show ?thesis by simp
  next
    case False
    with Cons.prems have "\<forall>x\<in>set (pre @ [c]). \<not> P x" by simp
    from Cons.IH [OF this] False show ?thesis by simp
  qed
qed

lemma thumbnail_fold:
  "fold (thumbnail_step n) cs (Elem t a x y ys, out)
     = (Elem t a x y (fold (\<lambda>c acc. if thumbnail_container c then remove1 c acc else acc) cs ys),
        out @ replicate (length (filter thumbnail_container cs)) (PRemovedThumbnail n))"
proof (induction cs arbitrary: ys out)
  case Nil
  then show ?case by simp
next
  case (Cons c cs)
  show ?case
  proof (cases "thumbnail_container c")
    case True
    then have "thumbnail_step n c (Elem t a x y ys, out)
        = (Elem t a x y (remove1 c ys), out @ [PRemovedThumbnail n])"
      by (simp add: thumbnail_step_def thumbnail_container_def)
    with True Cons.IH [of "remove1 c ys" "out @ [PRemovedThumbnail n]"] show ?thesis
      by (simp add: replicate_app_Cons_same)
  next
    case False
    then have "thumbnail_step n c (Elem t a x y ys, out) = (Elem t a x y ys, out)"
      by (auto simp: thumbnail_step_def thumbnail_container_def)
    with False Cons.IH [of ys out] show ?thesis by simp
  qed
qed

lemma remove_thumbnails_eq:
  "remove_thumbnails n root
     = (set_children root (filter (\<lambda>c. \<not> thumbnail_container c) (children root)),
        replicate (length (filter thumbnail_container (children root))) (PRemovedThumbnail n))"
proof (cases root)
  case (Elem t a x y cs)
  have "fold (\<lambda>c acc. if thumbnail_container c then remove1 c acc else acc) cs ([] @ cs)
          = [] @ filter (\<lambda>c. \<not> thumbnail_container c) cs"
    by (rule fold_remove1_filter) simp
  with Elem show ?thesis by (simp add: remove_thumbnails_def thumbnail_fold)
qed

lemma edit_xml_eq:
  "edit_xml n r root =
     (upsertDistributionInfo r ''ESRI REST Service''
        (removeThumbnailBlock (edit_use_limits (edit_abstracts root))),
      [PEditedAbstract n, PEditedUseTerms n]
        @ replicate (length (filter thumbnail_container
                               (children (edit_use_limits (edit_abstracts root)))))
            (PRemovedThumbnail n)
        @ [PDistInfo n])"
  by (simp add: edit_xml_def removeThumbnailBlock_def remove_thumbnails_eq Let_def)


subsection \<open>Records and batches\<close>



lemma upt_0_Suc: "[0..<Suc n] = 0 # map Suc [0..<n]"
  by (simp only: map_Suc_upt upt_conv_Cons [of 0 "Suc n"] zero_less_Suc)

lemma endings_Cons:
  "endings worlds u sid k (row # rows)
     = run_record (worlds k) u sid row # endings worlds u sid (Suc k) rows"
  unfolding endings_def length_Cons upt_0_Suc by (simp add: comp_def)

lemma run_batch_endings:
  "run_batch worlds u sid k rows st
     = st\<lparr>trace := trace st @ concat (map snd (endings worlds u sid k rows)),
          outcomes := outcomes st @ map fst (endings worlds u sid k rows)\<rparr>"
proof (induction rows arbitrary: k st)
  case Nil
  then show ?case by (simp add: endings_def)
next
  case (Cons row rows)
  then show ?case by (simp add: endings_Cons split: prod.splits)
qed

lemma run_record_cases:
  "run_record w u sid row =
     (case http_get w (source_url (file_id row)) of
        Inl e \<Rightarrow> (FetchError e,
                  [PStarting (survey_name row), Get (source_url (file_id row)),
                   PError (survey_name row) e])
      | Inr (code, content) \<Rightarrow>
          if code \<noteq> 200
          then (SkippedFetch,
                [PStarting (survey_name row), Get (source_url (file_id row)),
                 PFetchFailed (survey_name row) (file_id row) code])
          else
            (case fromstring w content of
               Inl e \<Rightarrow> (TransformError e,
                         [PStarting (survey_name row), Get (source_url (file_id row)),
                          PError (survey_name row) e])
             | Inr root \<Rightarrow>
                 (case extractCatalogId (link row) of
                    Inl e \<Rightarrow>
                      (IdError e,
                       [PStarting (survey_name row), Get (source_url (file_id row))]
                         @ snd (edit_xml (survey_name row) (rest_url row) root)
                         @ [PError (survey_name row) e])
                  | Inr None \<Rightarrow>
                      (SkippedNoId,
                       [PStarting (survey_name row), Get (source_url (file_id row))]
                         @ snd (edit_xml (survey_name row) (rest_url row) root)
                         @ [PSkippingNoId (file_id row) (link row)])
                  | Inr (Some item_id) \<Rightarrow>
                      (case http_post w u
                              \<lparr>sessionId = sid, catId = item_id, transformId = 1005,
                               xml = tostring w (fst (edit_xml (survey_name row) (rest_url row) root))\<rparr> of
                         Inl e \<Rightarrow>
                           (PublishError e,
                            [PStarting (survey_name row), Get (source_url (file_id row))]
                              @ snd (edit_xml (survey_name row) (rest_url row) root)
                              @ [PUpdatingItem item_id,
                                 Post u \<lparr>sessionId = sid, catId = item_id, transformId = 1005,
                                   xml = tostring w (fst (edit_xml (survey_name row) (rest_url row) root))\<rparr>,
                                 PError (survey_name row) e])
                       | Inr (code', body) \<Rightarrow>
                           (Success,
                            [PStarting (survey_name row), Get (source_url (file_id row))]
                              @ snd (edit_xml (survey_name row) (rest_url row) root)
                              @ [PUpdatingItem item_id,
                                 Post u \<lparr>sessionId = sid, catId = item_id, transformId = 1005,
                                   xml = tostring w (fst (edit_xml (survey_name row) (rest_url row) root))\<rparr>,
                                 PStatusCode code', PErrorsWarnings body])))))"
  unfolding run_record_def Let_def case_prod_beta
  by (simp split: sum.splits option.splits)


lemma endings_length: "length (endings worlds u sid k rows) = length rows"
  by (simp add: endings_def)

lemma endings_nth:
  "i < length rows \<Longrightarrow> endings worlds u sid k rows ! i = run_record (worlds (k + i)) u sid (rows ! i)"
  by (simp add: endings_def)

lemma run_record_skipped_fetch:
  "fst (run_record w u sid row) = SkippedFetch \<longleftrightarrow>
     (\<exists>code content. http_get w (source_url (file_id row)) = Inr (code, content) \<and> code \<noteq> 200)"
  unfolding run_record_cases by (auto split: sum.splits option.splits)

lemma run_record_fetch_error:
  "http_get w (source_url (file_id row)) = Inl e \<Longrightarrow> fst (run_record w u sid row) = FetchError e"
  unfolding run_record_cases by simp

lemma run_record_transform_error:
  "http_get w (source_url (file_id row)) = Inr (200, content) \<Longrightarrow> fromstring w content = Inl e
     \<Longrightarrow> fst (run_record w u sid row) = TransformError e"
  unfolding run_record_cases by simp


lemma post_not_in_edit: "Post u' p \<notin> set (snd (edit_xml n r root))"
  by (auto simp: edit_xml_eq)


subsection \<open>The session id in a run\<close>














subsection \<open>Thumbnail containers\<close>

lemma endswith_last: "endswith s suf \<Longrightarrow> suf \<noteq> [] \<Longrightarrow> last s = last suf"
  unfolding endswith_def by (metis last_drop drop_eq_Nil not_le)

lemma binary_not_thumbnail: "endswith s ''Binary'' \<Longrightarrow> \<not> endswith s ''Thumbnail''"
proof
  assume "endswith s ''Binary''" "endswith s ''Thumbnail''"
  then have "last s = last ''Binary''" "last s = last ''Thumbnail''"
    by (auto dest!: endswith_last)
  then show False by simp
qed

lemma thumbnail_container_descendant:
  "thumbnail_container c \<longleftrightarrow>
     endswith (tag c) ''Binary'' \<and>
     list_ex (\<lambda>g. endswith (tag g) ''Thumbnail'') (concat (map iter (children c)))"
  by (cases c) (auto simp: thumbnail_container_def has_thumbnail_def binary_not_thumbnail list_ex_iff)

lemma set_children_same: "set_children root (children root) = root"
  by (cases root) simp

subsection \<open>Get or create\<close>

lemma first_index_None: "first_index P xs = None \<longleftrightarrow> (\<forall>x\<in>set xs. \<not> P x)"
  by (induction xs) auto

lemma first_index_decomp:
  "first_index P xs = Some i \<Longrightarrow>
     \<exists>pre x post. xs = pre @ x # post \<and> length pre = i \<and> P x \<and> (\<forall>y\<in>set pre. \<not> P y)"
proof (induction xs arbitrary: i)
  case Nil
  then show ?case by simp
next
  case (Cons a xs)
  show ?case
  proof (cases "P a")
    case True
    with Cons.prems have "i = 0" by simp
    with True show ?thesis by (intro exI [of _ "[]"]) auto
  next
    case False
    with Cons.prems obtain j where j: "first_index P xs = Some j" "i = Suc j" by auto
    from Cons.IH [OF j(1)] obtain pre x post where
      "xs = pre @ x # post" "length pre = j" "P x" "\<forall>y\<in>set pre. \<not> P y" by blast
    with False j(2) show ?thesis by (intro exI [of _ "a # pre"]) auto
  qed
qed

lemma first_index_found:
  "(\<forall>y\<in>set pre. \<not> P y) \<Longrightarrow> P x \<Longrightarrow> first_index P (pre @ x # post) = Some (length pre)"
  by (induction pre) auto

lemma get_or_create_cases:
  "(\<exists>pre x post. children e = pre @ x # post \<and> (\<forall>y\<in>set pre. tag y \<noteq> t) \<and> tag x = t
      \<and> find_child t e = Some (length pre)
      \<and> get_or_create t k e = set_children e (pre @ k x # post)) \<or>
   ((\<forall>y\<in>set (children e). tag y \<noteq> t) \<and> find_child t e = None
      \<and> get_or_create t k e = set_children e (children e @ [k (new_element t)]))"
proof (cases "find_child t e")
  case None
  then have "\<forall>y\<in>set (children e). tag y \<noteq> t"
    by (simp add: find_child_def first_index_None)
  moreover from None
  have "get_or_create t k e = set_children e (children e @ [k (new_element t)])"
    by (simp add: get_or_create_def)
  ultimately show ?thesis using None by blast
next
  case (Some i)
  then obtain pre x post where d: "children e = pre @ x # post" "length pre = i" "tag x = t"
    "\<forall>y\<in>set pre. tag y \<noteq> t"
    unfolding find_child_def by (auto dest!: first_index_decomp)
  with Some have "get_or_create t k e = set_children e (pre @ k x # post)"
    by (auto simp: get_or_create_def)
  with d Some show ?thesis by blast
qed

lemma children_set_children [simp]: "children (set_children e cs) = cs"
  by (cases e) simp

lemma tag_set_children [simp]: "tag (set_children e cs) = tag e"
  by (cases e) simp

lemma set_children_twice [simp]: "set_children (set_children e cs) cs' = set_children e cs'"
  by (cases e) simp

lemma set_children_inject: "set_children e cs = set_children e cs' \<longleftrightarrow> cs = cs'"
  by (cases e) simp

lemma set_children_id: "set_children e cs = e \<longleftrightarrow> cs = children e"
  by (cases e) auto

lemma find_child_set_children [simp]:
  "find_child t (set_children e cs) = first_index (\<lambda>c. tag c = t) cs"
  by (simp add: find_child_def)

lemma tag_get_or_create: "tag (get_or_create t k e) = tag e"
  using get_or_create_cases [of e t k] by auto

lemma tag_new_element [simp]: "tag (new_element t) = t"
  by (simp add: new_element_def)

lemma children_new_element [simp]: "children (new_element t) = []"
  by (simp add: new_element_def)

lemma tag_set_text [simp]: "tag (set_text v e) = tag e"
  by (cases e) simp

lemma set_text_twice [simp]: "set_text v (set_text v e) = set_text v e"
  by (cases e) simp

lemma get_or_create_found:
  "(\<forall>y\<in>set pre. tag y \<noteq> t) \<Longrightarrow> tag x = t \<Longrightarrow>
   get_or_create t k (set_children e (pre @ x # post)) = set_children e (pre @ k x # post)"
  by (simp add: get_or_create_def first_index_found)

lemma get_or_create_idem:
  assumes "\<And>c. tag (k c) = tag c" "\<And>c. k (k c) = k c"
  shows "get_or_create t k (get_or_create t k e) = get_or_create t k e"
  using get_or_create_cases [of e t k]
proof (elim disjE exE conjE)
  fix pre x post
  assume "\<forall>y\<in>set pre. tag y \<noteq> t" "tag x = t"
    "get_or_create t k e = set_children e (pre @ k x # post)"
  then show ?thesis using assms get_or_create_found [of pre t "k x" k e post] by simp
next
  assume "\<forall>y\<in>set (children e). tag y \<noteq> t"
    "get_or_create t k e = set_children e (children e @ [k (new_element t)])"
  then show ?thesis
    using assms get_or_create_found [of "children e" t "k (new_element t)" k e "[]"] by simp
qed

lemma texts_at_append: "texts_at e (ps @ qs) = texts_at e ps @ texts_at e qs"
  by (simp add: texts_at_def)

lemma texts_at_concat: "texts_at e (concat pss) = concat (map (texts_at e) pss)"
  by (induction pss) (simp_all add: texts_at_append texts_at_def)

lemma texts_at_child:
  "i < length (children e) \<Longrightarrow> texts_at e (map ((#) i) ps) = texts_at (children e ! i) ps"
  by (simp add: texts_at_def)

lemma chain_texts_Nil: "chain_texts [] e = [text_of e]"
  by (simp add: chain_texts_def texts_at_def)

lemma chain_texts_Cons:
  "chain_texts (t # ts) e
     = concat (map (\<lambda>c. if tag c = t then chain_texts ts c else []) (children e))"
proof -
  have "chain_texts (t # ts) e
      = concat (map (\<lambda>i. if tag (children e ! i) = t then chain_texts ts (children e ! i) else [])
                    [0..<length (children e)])"
    unfolding chain_texts_def child_chain.simps texts_at_concat map_map comp_def
    by (rule arg_cong [where f = concat], rule map_cong)
       (auto simp: texts_at_child, simp add: texts_at_def)
  also have "\<dots> = concat (map (\<lambda>c. if tag c = t then chain_texts ts c else [])
                           (map (\<lambda>i. children e ! i) [0..<length (children e)]))"
    by (simp add: comp_def)
  finally show ?thesis by (simp only: map_nth)
qed

lemma concat_skip:
  "\<forall>y\<in>set pre. tag y \<noteq> t \<Longrightarrow>
   concat (map (\<lambda>c. if tag c = t then g c else []) pre) = []"
  by (induction pre) auto

lemma chain_texts_found:
  "(\<forall>y\<in>set pre. tag y \<noteq> t) \<Longrightarrow> tag x = t \<Longrightarrow> children e = pre @ x # post \<Longrightarrow>
   chain_texts (t # ts) e
     = chain_texts ts x @ concat (map (\<lambda>c. if tag c = t then chain_texts ts c else []) post)"
  by (simp add: chain_texts_Cons concat_skip)

lemma chain_texts_absent:
  "\<forall>y\<in>set (children e). tag y \<noteq> t \<Longrightarrow> chain_texts (t # ts) e = []"
  by (simp add: chain_texts_Cons concat_skip)

lemma first_chain_found:
  "(\<forall>y\<in>set pre. tag y \<noteq> t) \<Longrightarrow> tag x = t \<Longrightarrow> children e = pre @ x # post \<Longrightarrow>
   first_chain (t # ts) e = first_chain ts x"
  by (simp add: find_child_def first_index_found)

lemma first_chain_absent:
  "\<forall>y\<in>set (children e). tag y \<noteq> t \<Longrightarrow> \<not> first_chain (t # ts) e"
  using first_index_None [of "\<lambda>c. tag c = t" "children e"] by (simp add: find_child_def)

lemma new_element_rest:
  "(if first_chain ts (new_element t) then tl (chain_texts ts (new_element t))
    else chain_texts ts (new_element t)) = []"
  by (cases ts) (simp_all add: chain_texts_Nil chain_texts_Cons find_child_def)

lemma first_chain_nonempty: "first_chain ts c \<Longrightarrow> chain_texts ts c \<noteq> []"
proof (induction ts arbitrary: c)
  case Nil
  show ?case by (simp add: chain_texts_Nil)
next
  case step: (Cons t ts)
  from step.prems obtain i where i: "find_child t c = Some i" "first_chain ts (children c ! i)"
    by (auto split: option.splits)
  from i(1) obtain pre x post where d: "children c = pre @ x # post" "length pre = i" "tag x = t"
    "\<forall>y\<in>set pre. tag y \<noteq> t"
    unfolding find_child_def by (auto dest!: first_index_decomp)
  with i(2) have "first_chain ts x" by auto
  then have "chain_texts ts x \<noteq> []" by (rule step.IH)
  with chain_texts_found [of pre t x c post ts] d show ?case by simp
qed

lemma text_of_set_text [simp]: "text_of (set_text v c) = v"
  by (cases c) simp

lemma writes_set_text: "writes (set_text (Some v)) [] v"
  unfolding writes_def by (simp add: chain_texts_Nil)

lemma writes_get_or_create:
  assumes "writes k ts v"
  shows "writes (get_or_create t k) (t # ts) v"
  unfolding writes_def
proof (intro conjI allI)
  fix e
  show "tag (get_or_create t k e) = tag e" by (rule tag_get_or_create)
  from assms have tg: "\<And>c. tag (k c) = tag c"
    and eq: "\<And>c. chain_texts ts (k c)
            = Some v # (if first_chain ts c then tl (chain_texts ts c) else chain_texts ts c)"
    unfolding writes_def by blast+
  from get_or_create_cases [of e t k]
  show "chain_texts (t # ts) (get_or_create t k e)
          = Some v # (if first_chain (t # ts) e then tl (chain_texts (t # ts) e)
                      else chain_texts (t # ts) e)"
  proof (elim disjE exE conjE)
    fix pre x post
    assume a: "children e = pre @ x # post" "\<forall>y\<in>set pre. tag y \<noteq> t" "tag x = t"
      "get_or_create t k e = set_children e (pre @ k x # post)"
    let ?r = "concat (map (\<lambda>c. if tag c = t then chain_texts ts c else []) post)"
    have after: "chain_texts (t # ts) (get_or_create t k e) = chain_texts ts (k x) @ ?r"
      using a tg [of x]
        chain_texts_found [of pre t "k x" "set_children e (pre @ k x # post)" post ts]
      by simp
    have before: "chain_texts (t # ts) e = chain_texts ts x @ ?r"
      using a chain_texts_found [of pre t x e post ts] by simp
    have fc: "first_chain (t # ts) e = first_chain ts x"
      using a first_chain_found [of pre t x e post ts] by simp
    show ?thesis
    proof (cases "first_chain ts x")
      case True
      then have "chain_texts ts x \<noteq> []" by (rule first_chain_nonempty)
      then have "tl (chain_texts ts x @ ?r) = tl (chain_texts ts x) @ ?r" by simp
      with True show ?thesis unfolding after before fc eq by simp
    next
      case False
      then show ?thesis unfolding after before fc eq by simp
    qed
  next
    assume a: "\<forall>y\<in>set (children e). tag y \<noteq> t"
      "get_or_create t k e = set_children e (children e @ [k (new_element t)])"
    have "chain_texts (t # ts) (get_or_create t k e) = chain_texts ts (k (new_element t))"
      using a tg [of "new_element t"]
        chain_texts_found [of "children e" t "k (new_element t)"
          "set_children e (children e @ [k (new_element t)])" "[]" ts]
      by simp
    also have "\<dots> = [Some v]"
      unfolding eq using new_element_rest [of ts t] by simp
    finally show ?thesis
      using chain_texts_absent [OF a(1), of ts] first_chain_absent [OF a(1), of ts] by simp
  qed
qed

lemma writes_first:
  "writes k ts v \<Longrightarrow> \<exists>others. chain_texts ts (k c) = Some v # others"
  unfolding writes_def by blast

lemma writes_length:
  assumes "writes k ts v"
  shows "length (chain_texts ts (k c))
           = length (chain_texts ts c) + (if first_chain ts c then 0 else 1)"
proof (cases "first_chain ts c")
  case True
  then have "chain_texts ts c \<noteq> []" by (rule first_chain_nonempty)
  with True assms show ?thesis unfolding writes_def by (simp add: Suc_pred)
next
  case False
  with assms show ?thesis unfolding writes_def by simp
qed

lemma goc_list_found:
  "(\<forall>y\<in>set pre. tag y \<noteq> t) \<Longrightarrow> tag x = t \<Longrightarrow> goc_list t k (pre @ x # post) = pre @ k x # post"
  by (induction pre) auto

lemma goc_list_absent:
  "(\<forall>y\<in>set cs. tag y \<noteq> t) \<Longrightarrow> goc_list t k cs = cs @ [k (new_element t)]"
  by (induction cs) auto

lemma get_or_create_list:
  "get_or_create t k e = set_children e (goc_list t k (children e))"
  using get_or_create_cases [of e t k]
  by (auto simp: goc_list_found goc_list_absent)

lemma goc_list_other_texts:
  "t \<noteq> t' \<Longrightarrow> (\<And>c. tag (k c) = tag c) \<Longrightarrow>
   concat (map (\<lambda>c. if tag c = t' then g c else []) (goc_list t k cs))
     = concat (map (\<lambda>c. if tag c = t' then g c else []) cs)"
  by (induction cs) auto

lemma chain_texts_other:
  "t \<noteq> t' \<Longrightarrow> (\<And>c. tag (k c) = tag c) \<Longrightarrow>
   chain_texts (t' # ts) (get_or_create t k e) = chain_texts (t' # ts) e"
  by (simp add: chain_texts_Cons get_or_create_list goc_list_other_texts)

lemma first_index_find:
  "(case first_index P xs of None \<Rightarrow> z | Some i \<Rightarrow> f (xs ! i))
     = (case List.find P xs of None \<Rightarrow> z | Some x \<Rightarrow> f x)"
  by (induction xs) (auto split: option.splits)

lemma first_chain_find:
  "first_chain (t # ts) e
     = (case List.find (\<lambda>c. tag c = t) (children e) of None \<Rightarrow> False | Some c \<Rightarrow> first_chain ts c)"
  by (simp add: find_child_def first_index_find)

lemma goc_list_other_find:
  "t \<noteq> t' \<Longrightarrow> (\<And>c. tag (k c) = tag c) \<Longrightarrow>
   List.find (\<lambda>c. tag c = t') (goc_list t k cs) = List.find (\<lambda>c. tag c = t') cs"
  by (induction cs) auto

lemma first_chain_other:
  "t \<noteq> t' \<Longrightarrow> (\<And>c. tag (k c) = tag c) \<Longrightarrow>
   first_chain (t' # ts) (get_or_create t k e) = first_chain (t' # ts) e"
  by (simp add: first_chain_find get_or_create_list goc_list_other_find del: first_chain.simps)

lemma goc_list_idem:
  "(\<And>c. tag (k c) = tag c) \<Longrightarrow> (\<And>c. k (k c) = k c) \<Longrightarrow>
   goc_list t k (goc_list t k cs) = goc_list t k cs"
  by (induction cs) auto

lemma goc_list_fixed:
  assumes "t1 \<noteq> t2" "\<And>c. tag (k1 c) = tag c" "\<And>c. k1 (k1 c) = k1 c" "\<And>c. tag (k2 c) = tag c"
  shows "goc_list t1 k1 (goc_list t2 k2 (goc_list t1 k1 cs)) = goc_list t2 k2 (goc_list t1 k1 cs)"
  using assms by (induction cs) (auto simp: goc_list_idem)

lemma two_branches_idem:
  assumes "t1 \<noteq> t2" "\<And>c. tag (k1 c) = tag c" "\<And>c. k1 (k1 c) = k1 c"
    "\<And>c. tag (k2 c) = tag c" "\<And>c. k2 (k2 c) = k2 c"
  shows "get_or_create t2 k2 (get_or_create t1 k1
           (get_or_create t2 k2 (get_or_create t1 k1 e)))
         = get_or_create t2 k2 (get_or_create t1 k1 e)"
  using assms by (simp add: get_or_create_list goc_list_fixed goc_list_idem)

lemma set_text_props:
  "tag (set_text v c) = tag c" "set_text v (set_text v c) = set_text v c"
  by simp_all

lemma linkage_branch:
  "writes (get_or_create ''distTranOps''
             (get_or_create ''onLineSrc'' (get_or_create ''linkage'' (set_text (Some u)))))
          [''distTranOps'', ''onLineSrc'', ''linkage''] u"
  by (intro writes_get_or_create writes_set_text)

lemma format_branch:
  "writes (get_or_create ''distFormat'' (get_or_create ''formatName'' (set_text (Some f))))
          [''distFormat'', ''formatName''] f"
  by (intro writes_get_or_create writes_set_text)

lemma linkage_branch_idem:
  "get_or_create ''distTranOps''
     (get_or_create ''onLineSrc'' (get_or_create ''linkage'' (set_text (Some u))))
     (get_or_create ''distTranOps''
        (get_or_create ''onLineSrc'' (get_or_create ''linkage'' (set_text (Some u)))) c)
   = get_or_create ''distTranOps''
        (get_or_create ''onLineSrc'' (get_or_create ''linkage'' (set_text (Some u)))) c"
  by (intro get_or_create_idem tag_get_or_create set_text_props)

lemma format_branch_idem:
  "get_or_create ''distFormat'' (get_or_create ''formatName'' (set_text (Some f)))
     (get_or_create ''distFormat'' (get_or_create ''formatName'' (set_text (Some f))) c)
   = get_or_create ''distFormat'' (get_or_create ''formatName'' (set_text (Some f))) c"
  by (intro get_or_create_idem tag_get_or_create set_text_props)

lemma upsert_eq: "upsertDistributionInfo u f root = get_or_create ''distInfo'' (dist_info_edits u f) root"
  by (simp add: upsertDistributionInfo_def dist_info_edits_def [abs_def])

lemma dist_info_edits_tag: "tag (dist_info_edits u f c) = tag c"
  by (simp add: dist_info_edits_def tag_get_or_create)

lemma dist_info_edits_idem: "dist_info_edits u f (dist_info_edits u f c) = dist_info_edits u f c"
  unfolding dist_info_edits_def
proof (rule two_branches_idem)
  show "''distTranOps'' \<noteq> ''distFormat''" by simp
qed (intro get_or_create_idem tag_get_or_create set_text_props)+

lemma dist_info_edits_linkage:
  "writes (dist_info_edits u f) [''distTranOps'', ''onLineSrc'', ''linkage''] u"
  using linkage_branch [of u]
  unfolding writes_def dist_info_edits_def
  by (simp add: tag_get_or_create chain_texts_other)

lemma dist_info_edits_format:
  "writes (dist_info_edits u f) [''distFormat'', ''formatName''] f"
  using format_branch [of f]
  unfolding writes_def dist_info_edits_def
  by (simp add: tag_get_or_create chain_texts_other first_chain_other del: first_chain.simps)

lemma upsert_linkage:
  "writes (upsertDistributionInfo u f) [''distInfo'', ''distTranOps'', ''onLineSrc'', ''linkage''] u"
  unfolding upsert_eq [abs_def] by (intro writes_get_or_create dist_info_edits_linkage)

lemma upsert_format:
  "writes (upsertDistributionInfo u f) [''distInfo'', ''distFormat'', ''formatName''] f"
  unfolding upsert_eq [abs_def] by (intro writes_get_or_create dist_info_edits_format)

lemma upsert_idem:
  "upsertDistributionInfo u f (upsertDistributionInfo u f root) = upsertDistributionInfo u f root"
  unfolding upsert_eq
  by (intro get_or_create_idem dist_info_edits_tag dist_info_edits_idem)

lemma singleton_list: "xs = x # others \<Longrightarrow> length xs = 1 \<Longrightarrow> xs = [x]"
  by simp

subsection \<open>The frame\<close>

lemma tag_upd_text [simp]: "tag (upd_text g q c) = tag c"
  by (cases c; cases q) simp_all

lemma length_children_upd_text [simp]:
  "length (children (upd_text g q c)) = length (children c)"
  by (cases c; cases q) simp_all

lemma children_upd_text_Cons:
  "children (upd_text g (i # q) c) = (children c)[i := upd_text g q (children c ! i)]"
  by (cases c) simp

lemma children_upd_text_Nil: "children (upd_text g [] c) = children c"
  by (cases c) simp

lemma nth_update_cases: "xs[i := x] ! j = (if i = j \<and> i < length xs then x else xs ! j)"
  by (cases "i < length xs") (auto simp: nth_list_update list_update_beyond)

lemma child_chain_upd_text: "child_chain ts (upd_text g q c) = child_chain ts c"
proof (induction ts arbitrary: q c)
  case Nil
  show ?case by simp
next
  case step: (Cons t ts)
  show ?case
  proof (cases q)
    case Nil
    then show ?thesis by (simp add: children_upd_text_Nil cong: if_cong)
  next
    case (Cons i q')
    have "\<And>j. j < length (children c) \<Longrightarrow>
        tag ((children c)[i := upd_text g q' (children c ! i)] ! j) = tag (children c ! j)
        \<and> child_chain ts ((children c)[i := upd_text g q' (children c ! i)] ! j)
            = child_chain ts (children c ! j)"
      by (simp add: nth_update_cases step.IH)
    then show ?thesis
      unfolding Cons child_chain.simps children_upd_text_Cons length_list_update
      by (intro arg_cong [where f = concat] map_cong) auto
  qed
qed

lemma desc_chain_children:
  "desc_chain d ts c =
     concat (map (\<lambda>i. map ((#) i)
                        ((if tag (children c ! i) = d then child_chain ts (children c ! i) else [])
                          @ desc_chain d ts (children c ! i)))
                 [0..<length (children c)])"
  by (cases c) (simp cong: if_cong)

lemma desc_chain_upd_text: "desc_chain d ts (upd_text g q c) = desc_chain d ts c"
proof (induction q arbitrary: c)
  case Nil
  show ?case
    by (subst (1 2) desc_chain_children) (simp add: children_upd_text_Nil cong: if_cong)
next
  case (Cons i q)
  have "\<And>j. j < length (children c) \<Longrightarrow>
      tag ((children c)[i := upd_text g q (children c ! i)] ! j) = tag (children c ! j)
      \<and> child_chain ts ((children c)[i := upd_text g q (children c ! i)] ! j)
          = child_chain ts (children c ! j)
      \<and> desc_chain d ts ((children c)[i := upd_text g q (children c ! i)] ! j)
          = desc_chain d ts (children c ! j)"
    by (simp add: nth_update_cases Cons.IH child_chain_upd_text)
  then show ?case
    by (subst (1 2) desc_chain_children)
       (unfold children_upd_text_Cons length_list_update,
        intro arg_cong [where f = concat] map_cong, auto)
qed

lemma tag_mask_node [simp]: "tag (mask_node anc c) = tag c"
  by (cases c) simp

lemma child_chain_masked:
  "q \<in> set (child_chain ts c) \<Longrightarrow> is_target (rev ts @ tag c # anc) \<Longrightarrow>
   mask_node anc (upd_text g q c) = mask_node anc c"
proof (induction ts arbitrary: q c anc)
  case Nil
  then show ?case by (cases c) simp
next
  case step: (Cons t ts)
  obtain t' a x y cs where c: "c = Elem t' a x y cs" by (cases c)
  from step.prems(1) obtain i q' where q: "q = i # q'" "i < length cs" "tag (cs ! i) = t"
    "q' \<in> set (child_chain ts (cs ! i))"
    unfolding c by (auto split: if_splits)
  from step.prems(2) have "is_target (rev ts @ tag (cs ! i) # t' # anc)"
    unfolding c by (simp add: q(3))
  from step.IH [OF q(4) this]
  have "map (mask_node (t' # anc)) (cs[i := upd_text g q' (cs ! i)]) = map (mask_node (t' # anc)) cs"
    by (simp add: map_update list_update_same_conv q(2))
  then show ?case unfolding c q(1) by simp
qed

lemma desc_chain_masked:
  assumes target: "\<And>anc. is_target (rev ts @ d # anc)"
  shows "q \<in> set (desc_chain d ts c) \<Longrightarrow> mask_node anc (upd_text g q c) = mask_node anc c"
proof (induction q arbitrary: c anc)
  case Nil
  then show ?case by (cases c) auto
next
  case step: (Cons i q)
  obtain t' a x y cs where c: "c = Elem t' a x y cs" by (cases c)
  from step.prems have i: "i < length cs"
    and q: "(tag (cs ! i) = d \<and> q \<in> set (child_chain ts (cs ! i)))
              \<or> q \<in> set (desc_chain d ts (cs ! i))"
    unfolding c by (auto split: if_splits)
  have "mask_node (t' # anc) (upd_text g q (cs ! i)) = mask_node (t' # anc) (cs ! i)"
    using q
  proof
    assume a: "tag (cs ! i) = d \<and> q \<in> set (child_chain ts (cs ! i))"
    then have "is_target (rev ts @ tag (cs ! i) # t' # anc)" using target by simp
    with a show ?thesis by (intro child_chain_masked) auto
  next
    assume "q \<in> set (desc_chain d ts (cs ! i))"
    then show ?thesis by (rule step.IH)
  qed
  then have "map (mask_node (t' # anc)) (cs[i := upd_text g q (cs ! i)]) = map (mask_node (t' # anc)) cs"
    by (simp add: map_update list_update_same_conv i)
  then show ?case unfolding c by simp
qed

lemma frame_upd_text:
  assumes target: "\<And>anc. is_target (rev ts @ d # anc)"
    and q: "q \<in> set (desc_chain d ts root)"
  shows "frame (upd_text g q root) = frame root"
proof -
  obtain t' a x y cs where c: "root = Elem t' a x y cs" by (cases root)
  from q obtain i q' where i: "q = i # q'" "i < length cs"
    and q': "(tag (cs ! i) = d \<and> q' \<in> set (child_chain ts (cs ! i)))
              \<or> q' \<in> set (desc_chain d ts (cs ! i))"
    unfolding c by (auto split: if_splits)
  have "mask_node [] (upd_text g q' (cs ! i)) = mask_node [] (cs ! i)"
    using q'
  proof
    assume a: "tag (cs ! i) = d \<and> q' \<in> set (child_chain ts (cs ! i))"
    then have "is_target (rev ts @ tag (cs ! i) # [])" using target by simp
    with a show ?thesis by (intro child_chain_masked) auto
  next
    assume "q' \<in> set (desc_chain d ts (cs ! i))"
    then show ?thesis by (rule desc_chain_masked [OF target])
  qed
  then have "map (mask_node []) (cs[i := upd_text g q' (cs ! i)]) = map (mask_node []) cs"
    by (simp add: map_update list_update_same_conv i(2))
  then show ?thesis unfolding c i(1) by (simp add: frame_def)
qed

lemma frame_fold_upd_text:
  assumes target: "\<And>anc. is_target (rev ts @ d # anc)"
  shows "set ps \<subseteq> set (desc_chain d ts root) \<Longrightarrow>
         frame (fold (upd_text g) ps root) = frame root"
proof (induction ps arbitrary: root)
  case Nil
  show ?case by simp
next
  case (Cons p ps)
  then have "set ps \<subseteq> set (desc_chain d ts (upd_text g p root))"
    by (simp add: desc_chain_upd_text)
  from Cons.IH [OF this] have "frame (fold (upd_text g) (p # ps) root) = frame (upd_text g p root)"
    by simp
  also have "\<dots> = frame root" using Cons.prems by (intro frame_upd_text [OF target]) simp
  finally show ?case .
qed

lemma frame_edit_abstracts: "frame (edit_abstracts root) = frame root"
  unfolding edit_abstracts_def
  by (rule frame_fold_upd_text [where d = "''dataIdInfo''" and ts = "[''idAbs'']"])
     (simp_all add: is_target_def)

lemma frame_edit_use_limits: "frame (edit_use_limits root) = frame root"
  unfolding edit_use_limits_def
  by (rule frame_fold_upd_text
        [where d = "''dataIdInfo''" and ts = "[''resConst'', ''Consts'', ''useLimit'']"])
     (simp_all add: is_target_def)

lemma tags_iter_mask_node: "map tag (iter (mask_node anc c)) = map tag (iter c)"
proof (induction c arbitrary: anc)
  case (Elem t a x y cs)
  have "map (\<lambda>c. map tag (iter (mask_node (t # anc) c))) cs = map (\<lambda>c. map tag (iter c)) cs"
    by (rule map_cong [OF refl]) (rule Elem)
  then have "concat (map (\<lambda>c. map tag (iter (mask_node (t # anc) c))) cs)
      = concat (map (\<lambda>c. map tag (iter c)) cs)"
    by (rule arg_cong)
  then show ?case by (simp add: map_concat comp_def)
qed

lemma has_thumbnail_tags:
  "has_thumbnail c \<longleftrightarrow> list_ex (\<lambda>t. endswith t ''Thumbnail'') (map tag (iter c))"
  by (simp add: has_thumbnail_def list_ex_iff)

lemma thumbnail_container_mask_node [simp]:
  "thumbnail_container (mask_node anc c) = thumbnail_container c"
  by (simp add: thumbnail_container_def has_thumbnail_tags tags_iter_mask_node)

lemma filter_mask:
  "filter (\<lambda>c. \<not> thumbnail_container c) (map (mask_node anc) cs)
     = map (mask_node anc) (filter (\<lambda>c. \<not> thumbnail_container c) cs)"
  by (induction cs) simp_all

lemma frame_removeThumbnailBlock: "frame (removeThumbnailBlock root) = frame root"
  by (simp add: frame_def removeThumbnailBlock_def remove_thumbnails_eq filter_mask)

lemma dist_info_no_container: "tag c = ''distInfo'' \<Longrightarrow> \<not> thumbnail_container c"
  by (simp add: thumbnail_container_def endswith_def)

lemma frame_goc_list:
  assumes "\<And>c. tag (k c) = tag c"
  shows "drop_first (\<lambda>c. tag c = ''distInfo'')
           (filter (\<lambda>c. \<not> thumbnail_container c)
              (map (mask_node []) (goc_list ''distInfo'' k cs)))
         = drop_first (\<lambda>c. tag c = ''distInfo'')
             (filter (\<lambda>c. \<not> thumbnail_container c) (map (mask_node []) cs))"
  using assms by (induction cs) (auto simp: dist_info_no_container)

lemma frame_upsert: "frame (upsertDistributionInfo u f root) = frame root"
  by (simp add: frame_def upsert_eq get_or_create_list frame_goc_list dist_info_edits_tag)

subsection \<open>Claims\<close>

text \<open>
  Claim C3. For every use-limit text of length at least 267, \<open>truncateUseLimit\<close> returns
  exactly 268 characters: the first 267 characters of the input followed by one period.
  For every text shorter than 267 characters it returns the whole input followed by one
  period. The loop of line 124 writes this result into every use-limit node whose text
  is present and not empty.
\<close>

theorem truncateUseLimit_spec:
  "(267 \<le> length t \<longrightarrow>
      length (truncateUseLimit t) = 268 \<and> truncateUseLimit t = take 267 t @ ''.'')
   \<and> (length t < 267 \<longrightarrow> truncateUseLimit t = t @ ''.'')
   \<and> (t \<noteq> [] \<longrightarrow> edit_use_limit_text (Some t) = Some (truncateUseLimit t))"
  by (simp add: truncateUseLimit_def)

theorem truncateUseLimit_spec_witness:
  "267 \<le> length (replicate 300 (CHR ''a'')) \<and>
   length (truncateUseLimit (replicate 300 (CHR ''a''))) = 268 \<and>
   truncateUseLimit (replicate 300 (CHR ''a'')) = replicate 267 (CHR ''a'') @ ''.'' \<and>
   length ''CC0 1.0'' < 267 \<and>
   truncateUseLimit ''CC0 1.0'' = ''CC0 1.0.'' \<and>
   edit_use_limit_text (Some ''CC0 1.0'') = Some ''CC0 1.0.''"
  using truncateUseLimit_spec [of "replicate 300 (CHR ''a'')"]
        truncateUseLimit_spec [of "''CC0 1.0''"]
  by simp




text \<open>
  Claim C2, as amended. For the document whose abstract is
  \<^verbatim>\<open><p><a href="h">x</a></p>Real text.\<close> the edited abstract is \<^verbatim>\<open><p></p>Real text.\<close>:
  the leading link is removed, the opening paragraph tag before it is kept (the
  replacement is group 1) and the closing tag is no part of the pattern. With the REST
  URL \<^verbatim>\<open>https://svc/rest\<close> the linkage leaf holds that URL, the link \<^verbatim>\<open>.../item/99\<close> gives
  the catalog id 99, and a run that fetches and parses this document sends a publish
  request with that id and the serialized edited document.
\<close>

theorem end_to_end:
  "abstract_texts (fst (edit_xml n ''https://svc/rest'' example_document))
     = [Some ''<p></p>Real text.''] \<and>
   linkage_texts (fst (edit_xml n ''https://svc/rest'' example_document))
     = [Some ''https://svc/rest''] \<and>
   extractCatalogId ''.../item/99'' = Inr (Some 99) \<and>
   (http_get w (source_url fid) = Inr (200, content) \<and> fromstring w content = Inr example_document
      \<longrightarrow> (\<exists>before after.
            snd (run_record w url sid
                   \<lparr>file_id = fid, rest_url = ''https://svc/rest'', survey_name = n,
                    link = ''.../item/99''\<rparr>)
            = before @ [Post url \<lparr>sessionId = sid, catId = 99, transformId = 1005,
                                  xml = tostring w example_result\<rparr>] @ after))"
proof (intro conjI impI)
  show "abstract_texts (fst (edit_xml n ''https://svc/rest'' example_document))
     = [Some ''<p></p>Real text.'']"
    by (simp add: example_edit example_texts)
  show "linkage_texts (fst (edit_xml n ''https://svc/rest'' example_document))
     = [Some ''https://svc/rest'']"
    by (simp add: example_edit example_texts)
  show "extractCatalogId ''.../item/99'' = Inr (Some 99)" by (rule example_id)
next
  assume a: "http_get w (source_url fid) = Inr (200, content) \<and> fromstring w content = Inr example_document"
  let ?row = "\<lparr>file_id = fid, rest_url = ''https://svc/rest'', survey_name = n,
                    link = ''.../item/99''\<rparr>"
  let ?p = "\<lparr>sessionId = sid, catId = 99, transformId = 1005, xml = tostring w example_result\<rparr>"
  show "\<exists>before after. snd (run_record w url sid ?row) = before @ [Post url ?p] @ after"
  proof (cases "http_post w url ?p")
    case (Inl e)
    with a have "snd (run_record w url sid ?row)
        = ([PStarting n, Get (source_url fid), PEditedAbstract n, PEditedUseTerms n, PDistInfo n,
            PUpdatingItem 99]) @ [Post url ?p] @ [PError n e]"
      by (simp add: run_record_def example_edit example_id)
    then show ?thesis by blast
  next
    case (Inr r)
    with a have "snd (run_record w url sid ?row)
        = ([PStarting n, Get (source_url fid), PEditedAbstract n, PEditedUseTerms n, PDistInfo n,
            PUpdatingItem 99]) @ [Post url ?p] @ [PStatusCode (fst r), PErrorsWarnings (snd r)]"
      by (simp add: run_record_def example_edit example_id split: prod.splits)
    then show ?thesis by blast
  qed
qed

text \<open>The edited abstract is not \<^verbatim>\<open>Real text.\<close>, as claim C2 states it.\<close>

theorem end_to_end_counterexample:
  "abstract_texts (fst (edit_xml ''eDNA Survey'' ''https://svc/rest'' example_document))
     \<noteq> [Some ''Real text.'']"
  by (simp add: example_edit example_texts)

theorem end_to_end_witness:
  "http_get example_world (source_url ''abc'') = Inr (200, ''<metadata/>'') \<and>
   fromstring example_world ''<metadata/>'' = Inr example_document \<and>
   run_record example_world (Some ''https://inport/xml'') (Some ''token'') example_row
     = (Success,
        [PStarting ''eDNA Survey'', Get (source_url ''abc''), PEditedAbstract ''eDNA Survey'',
         PEditedUseTerms ''eDNA Survey'', PDistInfo ''eDNA Survey'', PUpdatingItem 99,
         Post (Some ''https://inport/xml'')
           \<lparr>sessionId = Some ''token'', catId = 99, transformId = 1005, xml = ''<metadata/>''\<rparr>,
         PStatusCode 200, PErrorsWarnings ''''])"
proof -
  have a: "http_get example_world (source_url ''abc'') = Inr (200, ''<metadata/>'')"
    and b: "fromstring example_world ''<metadata/>'' = Inr example_document"
    by (simp_all add: example_world_def)
  from end_to_end [of "''eDNA Survey''" example_world "''abc''" "''<metadata/>''"
      "Some ''https://inport/xml''" "Some ''token''"] a b
  have "\<exists>before after.
            snd (run_record example_world (Some ''https://inport/xml'') (Some ''token'')
                   \<lparr>file_id = ''abc'', rest_url = ''https://svc/rest'', survey_name = ''eDNA Survey'',
                    link = ''.../item/99''\<rparr>)
            = before @ [Post (Some ''https://inport/xml'') \<lparr>sessionId = Some ''token'', catId = 99, transformId = 1005,
                                  xml = tostring example_world example_result\<rparr>] @ after"
    by blast
  moreover have "run_record example_world (Some ''https://inport/xml'') (Some ''token'') example_row
     = (Success,
        [PStarting ''eDNA Survey'', Get (source_url ''abc''), PEditedAbstract ''eDNA Survey'',
         PEditedUseTerms ''eDNA Survey'', PDistInfo ''eDNA Survey'', PUpdatingItem 99,
         Post (Some ''https://inport/xml'')
           \<lparr>sessionId = Some ''token'', catId = 99, transformId = 1005, xml = ''<metadata/>''\<rparr>,
         PStatusCode 200, PErrorsWarnings ''''])"
    by (simp add: run_record_def example_world_def example_row_def example_edit example_id)
  ultimately show ?thesis using a b by blast
qed

text \<open>
  Claim C6. A batch gives every row one outcome, in the order of the rows, and the
  outcome of a row is the one its own pass through the loop gives, whatever happened to
  the other rows. A row ends as \<open>SkippedFetch\<close> exactly when its own metadata request
  returns a status other than 200. An exception of the request or of the parser becomes
  the outcome of that row. The trace of the batch is the traces of all rows, in order:
  no row stops the loop.
\<close>

theorem batch_isolation:
  "length (outcomes (run_batch worlds u sid 0 rows \<lparr>trace = tr, outcomes = []\<rparr>)) = length rows \<and>
   (\<forall>k<length rows.
      outcomes (run_batch worlds u sid 0 rows \<lparr>trace = tr, outcomes = []\<rparr>) ! k
        = fst (run_record (worlds k) u sid (rows ! k)) \<and>
      (outcomes (run_batch worlds u sid 0 rows \<lparr>trace = tr, outcomes = []\<rparr>) ! k = SkippedFetch
         \<longleftrightarrow> (\<exists>code content. http_get (worlds k) (source_url (file_id (rows ! k)))
                                  = Inr (code, content) \<and> code \<noteq> 200)) \<and>
      (\<forall>e. http_get (worlds k) (source_url (file_id (rows ! k))) = Inl e \<longrightarrow>
         outcomes (run_batch worlds u sid 0 rows \<lparr>trace = tr, outcomes = []\<rparr>) ! k
           = FetchError e) \<and>
      (\<forall>content e. http_get (worlds k) (source_url (file_id (rows ! k))) = Inr (200, content)
                     \<and> fromstring (worlds k) content = Inl e \<longrightarrow>
         outcomes (run_batch worlds u sid 0 rows \<lparr>trace = tr, outcomes = []\<rparr>) ! k
           = TransformError e)) \<and>
   trace (run_batch worlds u sid 0 rows \<lparr>trace = tr, outcomes = []\<rparr>)
     = tr @ concat (map (\<lambda>k. snd (run_record (worlds k) u sid (rows ! k))) [0..<length rows])"
proof -
  have o: "outcomes (run_batch worlds u sid 0 rows \<lparr>trace = tr, outcomes = []\<rparr>)
      = map fst (endings worlds u sid 0 rows)"
    by (simp add: run_batch_endings)
  have t: "trace (run_batch worlds u sid 0 rows \<lparr>trace = tr, outcomes = []\<rparr>)
      = tr @ concat (map snd (endings worlds u sid 0 rows))"
    by (simp add: run_batch_endings)
  have n: "\<forall>k<length rows. map fst (endings worlds u sid 0 rows) ! k
      = fst (run_record (worlds k) u sid (rows ! k))"
    by (simp add: endings_length endings_nth)
  have c: "map snd (endings worlds u sid 0 rows)
      = map (\<lambda>k. snd (run_record (worlds k) u sid (rows ! k))) [0..<length rows]"
    by (simp add: endings_def)
  show ?thesis
    unfolding o t c using n
    by (simp add: endings_length run_record_skipped_fetch run_record_fetch_error
          run_record_transform_error)
qed

theorem batch_isolation_witness:
  "http_get (example_worlds 1) (source_url (file_id ([example_row, example_row, example_row] ! 1)))
     = Inr (404, ''Not Found'') \<and>
   outcomes (run_batch example_worlds (Some ''https://inport/xml'') None 0
               [example_row, example_row, example_row] \<lparr>trace = [], outcomes = []\<rparr>)
     = [Success, SkippedFetch, Success]"
proof -
  define rows where "rows = [example_row, example_row, example_row]"
  define st where "st = run_batch example_worlds (Some ''https://inport/xml'') None 0 rows
               \<lparr>trace = [], outcomes = []\<rparr>"
  have g: "http_get (example_worlds 1) (source_url (file_id (rows ! 1))) = Inr (404, ''Not Found'')"
    by (simp add: example_worlds_def)
  have ok: "fst (run_record example_world (Some ''https://inport/xml'') None example_row) = Success"
    unfolding run_record_cases
    by (simp add: example_world_def example_row_def example_id)
  note bi = batch_isolation [of example_worlds "Some ''https://inport/xml''" None rows "[]",
      folded st_def]
  from bi have len: "length (outcomes st) = length rows" by (rule conjunct1)
  from bi have each: "\<And>k. k < length rows \<Longrightarrow>
      outcomes st ! k = fst (run_record (example_worlds k) (Some ''https://inport/xml'') None (rows ! k))"
    and skipped: "\<And>k. k < length rows \<Longrightarrow>
      (outcomes st ! k = SkippedFetch
         \<longleftrightarrow> (\<exists>code content. http_get (example_worlds k) (source_url (file_id (rows ! k)))
                                  = Inr (code, content) \<and> code \<noteq> 200))"
    by blast+
  have l: "length rows = 3" by (simp add: rows_def)
  have "outcomes st ! 1 = SkippedFetch" using skipped [of 1] g l by simp
  moreover have "outcomes st ! 0 = Success"
    using each [of 0] l ok by (simp add: example_worlds_def rows_def)
  moreover have "outcomes st ! 2 = Success"
    using each [of 2] l ok by (simp add: example_worlds_def rows_def)
  ultimately have "outcomes st = [Success, SkippedFetch, Success]"
    using len l by (intro nth_equalityI) (auto simp: less_Suc_eq numeral_3_eq_3 numeral_2_eq_2)
  with g show ?thesis unfolding st_def rows_def by blast
qed

text \<open>
  Claim C7. When a run sends its publish request and the request returns a response, the
  row ends as \<open>Success\<close> whatever the status code of the response, which is printed with
  the response text and nothing else. A row ends as \<open>PublishError\<close> exactly when its
  publish request raises.
\<close>

theorem publish_outcome:
  "(Post u' p \<in> set (snd (run_record w u sid row)) \<and> http_post w u' p = Inr (code, body) \<longrightarrow>
      fst (run_record w u sid row) = Success \<and>
      (\<exists>before. snd (run_record w u sid row)
                  = before @ [Post u' p, PStatusCode code, PErrorsWarnings body])) \<and>
   (fst (run_record w u sid row) = PublishError e \<longleftrightarrow>
      (\<exists>p. Post u p \<in> set (snd (run_record w u sid row)) \<and> http_post w u p = Inl e))"
  unfolding run_record_cases
  by (auto simp: post_not_in_edit split: sum.splits option.splits)

theorem publish_outcome_witness:
  "Post (Some ''https://inport/xml'')
      \<lparr>sessionId = None, catId = 99, transformId = 1005, xml = ''<metadata/>''\<rparr>
     \<in> set (snd (run_record server_error_world (Some ''https://inport/xml'') None example_row)) \<and>
   http_post server_error_world (Some ''https://inport/xml'')
      \<lparr>sessionId = None, catId = 99, transformId = 1005, xml = ''<metadata/>''\<rparr>
     = Inr (500, ''Internal Server Error'') \<and>
   fst (run_record server_error_world (Some ''https://inport/xml'') None example_row) = Success"
proof -
  let ?p = "\<lparr>sessionId = None, catId = 99, transformId = 1005, xml = ''<metadata/>''\<rparr>"
  have a: "Post (Some ''https://inport/xml'') ?p
     \<in> set (snd (run_record server_error_world (Some ''https://inport/xml'') None example_row))"
    unfolding run_record_cases
    by (simp add: server_error_world_def example_world_def example_row_def example_id)
  have b: "http_post server_error_world (Some ''https://inport/xml'') ?p
     = Inr (500, ''Internal Server Error'')"
    by (simp add: server_error_world_def)
  from publish_outcome [of "Some ''https://inport/xml''" ?p server_error_world
      "Some ''https://inport/xml''" None example_row 500 "''Internal Server Error''"] a b
  show ?thesis by blast
qed






text \<open>
  Claim C1, as amended. \<open>removeThumbnailBlock\<close> removes every binary-content container
  among the children of the root and keeps the other children, in their order: the inner
  \<^verbatim>\<open>break\<close> of line 139 ends the scan of one container, and the loop over the children
  goes on. A container is a child whose tag ends with \<^verbatim>\<open>Binary\<close> and that has a
  descendant whose tag ends with \<^verbatim>\<open>Thumbnail\<close>. When no child is a container the document
  is unchanged.
\<close>

theorem removeThumbnailBlock_spec:
  "removeThumbnailBlock root
     = set_children root (filter (\<lambda>c. \<not> thumbnail_container c) (children root)) \<and>
   (thumbnail_container c \<longleftrightarrow>
      endswith (tag c) ''Binary'' \<and>
      list_ex (\<lambda>g. endswith (tag g) ''Thumbnail'') (concat (map iter (children c)))) \<and>
   (\<not> list_ex thumbnail_container (children root) \<longrightarrow> removeThumbnailBlock root = root)"
proof (intro conjI impI)
  show a: "removeThumbnailBlock root
     = set_children root (filter (\<lambda>c. \<not> thumbnail_container c) (children root))"
    by (simp add: removeThumbnailBlock_def remove_thumbnails_eq)
  show "thumbnail_container c \<longleftrightarrow>
      endswith (tag c) ''Binary'' \<and>
      list_ex (\<lambda>g. endswith (tag g) ''Thumbnail'') (concat (map iter (children c)))"
    by (rule thumbnail_container_descendant)
  assume "\<not> list_ex thumbnail_container (children root)"
  then have "filter (\<lambda>c. \<not> thumbnail_container c) (children root) = children root"
    by (simp add: list_ex_iff)
  with a show "removeThumbnailBlock root = root" by (simp add: set_children_same)
qed

theorem removeThumbnailBlock_spec_witness:
  "\<not> list_ex thumbnail_container (children example_document) \<and>
   removeThumbnailBlock example_document = example_document"
proof -
  have "\<not> list_ex thumbnail_container (children example_document)" by code_simp
  with removeThumbnailBlock_spec [of example_document] show ?thesis by blast
qed

text \<open>
  A document with two thumbnail containers loses both, not at most one as claim C1
  states it.
\<close>

theorem removeThumbnailBlock_counterexample:
  "removeThumbnailBlock two_thumbnails
     = Elem ''metadata'' [] None None
         [Elem ''dataIdInfo'' [] None None [Elem ''idAbs'' [] (Some ''Text'') None []]] \<and>
   \<not> length (children two_thumbnails)
         - length (children (removeThumbnailBlock two_thumbnails)) \<le> 1"
  by code_simp


text \<open>
  Claim C4, as amended. \<open>upsertDistributionInfo\<close> is idempotent: a second application
  with the same arguments leaves the result of the first unchanged. After it the first
  linkage leaf holds the REST URL and the first format-name leaf holds the format name.
  Every other leaf is kept, with its text and in its order: when the path that \<open>find\<close>
  follows was complete, the list of the leaf texts is the old one with its first text
  replaced; when it was incomplete, it is the old list with the new text put in front.
  So the number of linkage leaves (of format-name leaves) grows by one in the second
  case and is unchanged in the first, and a document without a distribution-info element
  ends with exactly one linkage leaf and exactly one format-name leaf.
\<close>

theorem upsertDistributionInfo_spec:
  "upsertDistributionInfo u f (upsertDistributionInfo u f root) = upsertDistributionInfo u f root \<and>
   linkage_texts (upsertDistributionInfo u f root)
     = Some u # (if first_chain [''distInfo'', ''distTranOps'', ''onLineSrc'', ''linkage''] root
                 then tl (linkage_texts root) else linkage_texts root) \<and>
   format_name_texts (upsertDistributionInfo u f root)
     = Some f # (if first_chain [''distInfo'', ''distFormat'', ''formatName''] root
                 then tl (format_name_texts root) else format_name_texts root) \<and>
   (\<exists>others. linkage_texts (upsertDistributionInfo u f root) = Some u # others) \<and>
   (\<exists>others. format_name_texts (upsertDistributionInfo u f root) = Some f # others) \<and>
   length (linkage_texts (upsertDistributionInfo u f root))
     = length (linkage_texts root)
       + (if first_chain [''distInfo'', ''distTranOps'', ''onLineSrc'', ''linkage''] root
          then 0 else 1) \<and>
   length (format_name_texts (upsertDistributionInfo u f root))
     = length (format_name_texts root)
       + (if first_chain [''distInfo'', ''distFormat'', ''formatName''] root then 0 else 1) \<and>
   (find_child ''distInfo'' root = None \<longrightarrow>
      linkage_texts (upsertDistributionInfo u f root) = [Some u] \<and>
      format_name_texts (upsertDistributionInfo u f root) = [Some f])"
proof -
  let ?l = "[''distInfo'', ''distTranOps'', ''onLineSrc'', ''linkage'']"
  let ?n = "[''distInfo'', ''distFormat'', ''formatName'']"
  have lt: "\<And>e. linkage_texts e = chain_texts ?l e"
    and ft: "\<And>e. format_name_texts e = chain_texts ?n e"
    by (simp_all add: linkage_texts_def format_name_texts_def chain_texts_def)
  from upsert_linkage [of u f] have
    l0: "chain_texts ?l (upsertDistributionInfo u f root)
          = Some u # (if first_chain ?l root then tl (chain_texts ?l root)
                      else chain_texts ?l root)"
    unfolding writes_def by blast
  from upsert_format [of u f] have
    f0: "chain_texts ?n (upsertDistributionInfo u f root)
          = Some f # (if first_chain ?n root then tl (chain_texts ?n root)
                      else chain_texts ?n root)"
    unfolding writes_def by blast
  have l1: "\<exists>others. chain_texts ?l (upsertDistributionInfo u f root) = Some u # others"
    by (rule writes_first [OF upsert_linkage])
  have f1: "\<exists>others. chain_texts ?n (upsertDistributionInfo u f root) = Some f # others"
    by (rule writes_first [OF upsert_format])
  have l2: "length (chain_texts ?l (upsertDistributionInfo u f root))
          = length (chain_texts ?l root) + (if first_chain ?l root then 0 else 1)"
    by (rule writes_length [OF upsert_linkage])
  have f2: "length (chain_texts ?n (upsertDistributionInfo u f root))
          = length (chain_texts ?n root) + (if first_chain ?n root then 0 else 1)"
    by (rule writes_length [OF upsert_format])
  have fresh: "chain_texts ?l (upsertDistributionInfo u f root) = [Some u] \<and>
      chain_texts ?n (upsertDistributionInfo u f root) = [Some f]"
    if none: "find_child ''distInfo'' root = None"
  proof -
    from none have a: "\<forall>y\<in>set (children root). tag y \<noteq> ''distInfo''"
      by (simp add: find_child_def first_index_None)
    have "length (chain_texts ?l (upsertDistributionInfo u f root)) = 1"
      unfolding l2 using chain_texts_absent [OF a] first_chain_absent [OF a] by simp
    moreover have "length (chain_texts ?n (upsertDistributionInfo u f root)) = 1"
      unfolding f2 using chain_texts_absent [OF a] first_chain_absent [OF a] by simp
    ultimately show ?thesis using l1 f1 by (auto dest: singleton_list)
  qed
  show ?thesis
    unfolding lt ft using upsert_idem l0 f0 l1 l2 f1 f2 fresh by blast
qed

theorem upsertDistributionInfo_spec_witness:
  "find_child ''distInfo'' example_document = None \<and>
   linkage_texts (upsertDistributionInfo ''https://svc/rest'' ''ESRI REST Service'' example_document)
     = [Some ''https://svc/rest''] \<and>
   format_name_texts (upsertDistributionInfo ''https://svc/rest'' ''ESRI REST Service'' example_document)
     = [Some ''ESRI REST Service'']"
proof -
  have "find_child ''distInfo'' example_document = None" by code_simp
  with upsertDistributionInfo_spec [of "''https://svc/rest''" "''ESRI REST Service''" example_document]
  show ?thesis by blast
qed

text \<open>
  A document with two linkage leaves keeps both after two applications, and the second
  leaf keeps its old text: not exactly one leaf with the latest text, as claim C4 states
  it.
\<close>

theorem upsertDistributionInfo_counterexample:
  "linkage_texts (upsertDistributionInfo ''https://svc/rest'' ''ESRI REST Service''
                   (upsertDistributionInfo ''https://svc/rest'' ''ESRI REST Service'' two_linkages))
     = [Some ''https://svc/rest'', Some ''https://old/2'']"
  by code_simp

text \<open>
  Claim C10. The edits of lines 111--176 leave the frame of every document unchanged:
  after them the document can differ from the input only in the texts of the abstract
  nodes at \<^verbatim>\<open>dataIdInfo/idAbs\<close> and of the use-limit nodes at
  \<^verbatim>\<open>dataIdInfo/resConst/Consts/useLimit\<close>, in the thumbnail containers removed from the
  children of the root, and in the first distribution-info child of the root. Every
  other element, attribute, text and tail is the same, in the same order.
\<close>

theorem transform_frame: "frame (fst (edit_xml n u root)) = frame root"
  by (simp add: edit_xml_eq frame_upsert frame_removeThumbnailBlock frame_edit_use_limits
        frame_edit_abstracts)

theorem transform_frame_witness:
  "frame (fst (edit_xml ''eDNA Survey'' ''https://svc/rest'' two_thumbnails))
     = Elem ''metadata'' [] None None
         [Elem ''dataIdInfo'' [] None None [Elem ''idAbs'' [] None None []]] \<and>
   fst (edit_xml ''eDNA Survey'' ''https://svc/rest'' two_thumbnails)
     = Elem ''metadata'' [] None None
         [Elem ''dataIdInfo'' [] None None [Elem ''idAbs'' [] (Some ''Text'') None []],
          Elem ''distInfo'' [] None None
            [Elem ''distTranOps'' [] None None
               [Elem ''onLineSrc'' [] None None
                  [Elem ''linkage'' [] (Some ''https://svc/rest'') None []]],
             Elem ''distFormat'' [] None None
               [Elem ''formatName'' [] (Some ''ESRI REST Service'') None []]]]"
proof -
  have "frame two_thumbnails
     = Elem ''metadata'' [] None None
         [Elem ''dataIdInfo'' [] None None [Elem ''idAbs'' [] None None []]]"
    by code_simp
  moreover have "fst (edit_xml ''eDNA Survey'' ''https://svc/rest'' two_thumbnails)
     = Elem ''metadata'' [] None None
         [Elem ''dataIdInfo'' [] None None [Elem ''idAbs'' [] (Some ''Text'') None []],
          Elem ''distInfo'' [] None None
            [Elem ''distTranOps'' [] None None
               [Elem ''onLineSrc'' [] None None
                  [Elem ''linkage'' [] (Some ''https://svc/rest'') None []]],
             Elem ''distFormat'' [] None None
               [Elem ''formatName'' [] (Some ''ESRI REST Service'') None []]]]"
    by code_simp
  ultimately show ?thesis
    using transform_frame [of "''eDNA Survey''" "''https://svc/rest''" two_thumbnails]
    by simp
qed

end
